theory Spec2Isabelle
  imports Main "HOL-Library.Sublist" "HOL-Library.AList"
begin

section \<open>Go values used by the generator\<close>

text \<open>
  A Go \<open>string\<close> is a sequence of bytes, here a \<open>char list\<close>.  A Go \<open>map[string]T\<close> is an
  association list with pairwise distinct keys: \<open>map_of\<close> is the lookup \<open>m[k]\<close>,
  \<open>AList.update\<close> is the assignment \<open>m[k] = v\<close>, and the order of the list stands for
  the order in which a \<open>range\<close> loop yields the entries.  Go leaves that order
  unspecified; the theorems below are stated for all such lists.
\<close>

type_synonym 'v gomap = "(string \<times> 'v) list"

definition dquote :: char where
  "dquote = CHR 0x22"

definition backtick :: char where
  "backtick = CHR 0x60"

definition newline :: char where
  "newline = CHR 0x0A"

section \<open>The functions of package \<open>strings\<close> that the code calls\<close>

definition HasPrefix :: "string \<Rightarrow> string \<Rightarrow> bool" where
  "HasPrefix s p = prefix p s"

definition HasSuffix :: "string \<Rightarrow> string \<Rightarrow> bool" where
  "HasSuffix s p = suffix p s"

definition TrimPrefix :: "string \<Rightarrow> string \<Rightarrow> string" where
  "TrimPrefix s p = (if HasPrefix s p then drop (length p) s else s)"

definition TrimSuffix :: "string \<Rightarrow> string \<Rightarrow> string" where
  "TrimSuffix s p = (if HasSuffix s p then take (length s - length p) s else s)"

text \<open>\<open>strings.Index\<close>: the position of the first occurrence, \<open>None\<close> for Go's \<open>-1\<close>.\<close>

fun Index :: "string \<Rightarrow> string \<Rightarrow> nat option" where
  "Index [] sub = (if sub = [] then Some 0 else None)"
| "Index (c # s) sub =
     (if prefix sub (c # s) then Some 0 else map_option Suc (Index s sub))"

definition Contains :: "string \<Rightarrow> string \<Rightarrow> bool" where
  "Contains s sub = (Index s sub \<noteq> None)"

text \<open>
  \<open>strings.Split\<close> with a non-empty separator cuts at each first occurrence in turn.
  The code only passes the separators \<open>json:"\<close>, \<open>"\<close> and \<open>,\<close>; for the empty separator Go
  cuts after every UTF-8 sequence, which for the one-byte characters is the cut after
  every byte written here.
\<close>

function Split :: "string \<Rightarrow> string \<Rightarrow> string list" where
  "Split s sep =
     (if sep = [] then map (\<lambda>c. [c]) s
      else case Index s sep of
             None \<Rightarrow> [s]
           | Some m \<Rightarrow> take m s # Split (drop (m + length sep) s) sep)"
  by pat_completeness auto
termination
proof (relation "measure (\<lambda>(s, sep). length s)")
  show "wf (measure (\<lambda>(s, sep). length s))" by simp
next
  fix s sep :: string and m
  assume sep: "sep \<noteq> []" and found: "Index s sep = Some m"
  have bound: "Index t sub = Some k \<Longrightarrow> k + length sub \<le> length t" for t sub k
  proof (induction t arbitrary: k)
    case Nil
    then show ?case by (simp split: if_splits)
  next
    case (Cons c t)
    show ?case
    proof (cases "prefix sub (c # t)")
      case True
      then have "length sub \<le> length (c # t)" by (rule prefix_length_le)
      with True Cons.prems show ?thesis by simp
    next
      case False
      with Cons.prems obtain j where "Index t sub = Some j" "k = Suc j" by auto
      with Cons.IH show ?thesis by simp
    qed
  qed
  from sep bound [OF found] have "length s - (m + length sep) < length s"
    by (cases sep) simp_all
  then show "((drop (m + length sep) s, sep), (s, sep)) \<in> measure (\<lambda>(s, sep). length s)"
    by simp
qed

declare Split.simps [simp del]

text \<open>\<open>strings.Trim\<close> with a cutset of one-byte characters.\<close>

definition Trim :: "string \<Rightarrow> string \<Rightarrow> string" where
  "Trim s cutset =
     rev (dropWhile (\<lambda>c. c \<in> set cutset) (rev (dropWhile (\<lambda>c. c \<in> set cutset) s)))"

section \<open>The schema graph\<close>

record FieldInfo =
  Type :: string
  JSONTag :: string

record StructInfo =
  Def :: string
  Fields :: "FieldInfo gomap"
  IsNested :: bool

type_synonym StructInfos = "StructInfo gomap"

section \<open>The syntax tree that \<open>parser.ParseFile\<close> returns\<close>

text \<open>
  Only the part of \<open>go/ast\<close> that \<open>extractStructDefs\<close> inspects: the declarations of a file,
  the specs of a general declaration, the field list of a struct type, and of a field its
  names, its type expression and its tag literal (\<open>None\<close> for a \<open>nil\<close> tag).
\<close>

datatype expr = Ident string | SelectorExpr expr string | OtherExpr

datatype ast_field = Field (Names: "string list") (FieldType: expr) (Tag: "string option")

datatype type_expr = StructType "ast_field list" | OtherType

datatype spec = TypeSpec string type_expr | OtherSpec

datatype token = token_TYPE | token_IMPORT | token_CONST | token_VAR

datatype decl = GenDecl token "spec list" | FuncDecl

text \<open>\<open>printer.Fprint\<close> on a type spec: the printed text, or the printer's error.\<close>

type_synonym printer = "spec \<Rightarrow> string + string"

datatype extract_error = ParseFileError string | NoStructDefinitions

section \<open>\<open>extractStructDefs\<close>\<close>

text \<open>The type switch on \<open>field.Type\<close>; \<open>None\<close> is the \<open>default: continue\<close>.\<close>

fun fieldTypeOf :: "expr \<Rightarrow> string option" where
  "fieldTypeOf (Ident n) = Some n"
| "fieldTypeOf (SelectorExpr (Ident x) sel) = Some (x @ ''.'' @ sel)"
| "fieldTypeOf (SelectorExpr _ sel) = Some []"
| "fieldTypeOf OtherExpr = None"

text \<open>The JSON tag of a field: its name, unless the tag literal holds \<open>json:"..."\<close>.\<close>

definition jsonTagOf :: "string \<Rightarrow> string option \<Rightarrow> string" where
  "jsonTagOf name tagValue =
     (case tagValue of
        None \<Rightarrow> name
      | Some v \<Rightarrow>
          (let tag = Trim v [backtick];
               parts = Split tag (''json:'' @ [dquote])
           in if length parts > 1
              then hd (Split (hd (Split (parts ! 1) [dquote])) '','')
              else name))"

definition addName :: "ast_field \<Rightarrow> string \<Rightarrow> FieldInfo gomap \<Rightarrow> FieldInfo gomap" where
  "addName field name flds =
     (case fieldTypeOf (FieldType field) of
        None \<Rightarrow> flds
      | Some fieldType \<Rightarrow>
          AList.update name \<lparr>Type = fieldType, JSONTag = jsonTagOf name (Tag field)\<rparr> flds)"

definition collectFields :: "ast_field list \<Rightarrow> FieldInfo gomap" where
  "collectFields fieldList = fold (\<lambda>field. fold (addName field) (Names field)) fieldList []"

text \<open>
  First pass, one spec: a struct type is printed and stored under its name, not nested;
  when the printer fails the spec is skipped.
\<close>

fun addSpec :: "printer \<Rightarrow> spec \<Rightarrow> StructInfos \<Rightarrow> StructInfos" where
  "addSpec prt (TypeSpec name (StructType fieldList)) structInfos =
     (case prt (TypeSpec name (StructType fieldList)) of
        Inl err \<Rightarrow> structInfos
      | Inr printed \<Rightarrow>
          AList.update name
            \<lparr>Def = printed, Fields = collectFields fieldList, IsNested = False\<rparr> structInfos)"
| "addSpec prt (TypeSpec name OtherType) structInfos = structInfos"
| "addSpec prt OtherSpec structInfos = structInfos"

fun addDecl :: "printer \<Rightarrow> decl \<Rightarrow> StructInfos \<Rightarrow> StructInfos" where
  "addDecl prt (GenDecl tok specs) structInfos =
     (if tok = token_TYPE then fold (addSpec prt) specs structInfos else structInfos)"
| "addDecl prt FuncDecl structInfos = structInfos"

definition collectStructs :: "printer \<Rightarrow> decl list \<Rightarrow> StructInfos" where
  "collectStructs prt decls = fold (addDecl prt) decls []"

text \<open>Second pass: the struct named by a field's type, when there is one, is marked.\<close>

definition markType :: "string \<Rightarrow> StructInfos \<Rightarrow> StructInfos" where
  "markType t structInfos =
     (case map_of structInfos t of
        None \<Rightarrow> structInfos
      | Some nestedInfo \<Rightarrow> AList.update t (nestedInfo\<lparr>IsNested := True\<rparr>) structInfos)"

definition markFields :: "FieldInfo gomap \<Rightarrow> StructInfos \<Rightarrow> StructInfos" where
  "markFields flds structInfos =
     fold (\<lambda>(fieldName, fieldInfo). markType (Type fieldInfo)) flds structInfos"

definition markNested :: "StructInfos \<Rightarrow> StructInfos" where
  "markNested structInfos =
     fold (\<lambda>(structName, info). markFields (Fields info)) structInfos structInfos"

text \<open>
  The whole function, on the result of the parser: its error, or the declarations of the
  file.
\<close>

definition extractStructDefs ::
    "printer \<Rightarrow> string + decl list \<Rightarrow> extract_error + StructInfos" where
  "extractStructDefs prt parsed =
     (case parsed of
        Inl err \<Rightarrow> Inl (ParseFileError err)
      | Inr decls \<Rightarrow>
          (let structInfos = markNested (collectStructs prt decls)
           in if length structInfos = 0 then Inl NoStructDefinitions else Inr structInfos))"

section \<open>\<open>strings.TrimSpace\<close>\<close>

text \<open>
  \<open>strings.TrimSpace\<close> removes the leading and trailing white space of Unicode
  (\<open>unicode.IsSpace\<close>), read from the UTF-8 bytes of the string: the six one-byte
  characters, U+0085 and U+00A0 in two bytes, and U+1680, U+2000 to U+200A, U+2028,
  U+2029, U+202F, U+205F and U+3000 in three bytes.
\<close>

definition asciiSpace :: "char \<Rightarrow> bool" where
  "asciiSpace c \<longleftrightarrow>
     c \<in> set [CHR 0x09, CHR 0x0A, CHR 0x0B, CHR 0x0C, CHR 0x0D, CHR 0x20]"

definition space2 :: "char \<Rightarrow> char \<Rightarrow> bool" where
  "space2 a b \<longleftrightarrow> a = CHR 0xC2 \<and> b \<in> set [CHR 0x85, CHR 0xA0]"

definition space3 :: "char \<Rightarrow> char \<Rightarrow> char \<Rightarrow> bool" where
  "space3 a b c \<longleftrightarrow>
     a = CHR 0xE1 \<and> b = CHR 0x9A \<and> c = CHR 0x80 \<or>
     a = CHR 0xE2 \<and> b = CHR 0x80 \<and>
       c \<in> set [CHR 0x80, CHR 0x81, CHR 0x82, CHR 0x83, CHR 0x84, CHR 0x85, CHR 0x86,
                 CHR 0x87, CHR 0x88, CHR 0x89, CHR 0x8A, CHR 0xA8, CHR 0xA9, CHR 0xAF] \<or>
     a = CHR 0xE2 \<and> b = CHR 0x81 \<and> c = CHR 0x9F \<or>
     a = CHR 0xE3 \<and> b = CHR 0x80 \<and> c = CHR 0x80"

text \<open>The number of bytes of the white-space character a string starts with, or 0.\<close>

fun leadingSpace :: "string \<Rightarrow> nat" where
  "leadingSpace [] = 0"
| "leadingSpace [a] = (if asciiSpace a then 1 else 0)"
| "leadingSpace [a, b] = (if asciiSpace a then 1 else if space2 a b then 2 else 0)"
| "leadingSpace (a # b # c # s) =
     (if asciiSpace a then 1 else if space2 a b then 2 else if space3 a b c then 3 else 0)"

text \<open>The same for the character a string ends with, read from the reversed string.\<close>

fun trailingSpace :: "string \<Rightarrow> nat" where
  "trailingSpace [] = 0"
| "trailingSpace [c] = (if asciiSpace c then 1 else 0)"
| "trailingSpace [c, b] = (if asciiSpace c then 1 else if space2 b c then 2 else 0)"
| "trailingSpace (c # b # a # s) =
     (if asciiSpace c then 1 else if space2 b c then 2 else if space3 a b c then 3 else 0)"

function TrimLeftSpace :: "string \<Rightarrow> string" where
  "TrimLeftSpace s =
     (if leadingSpace s = 0 then s else TrimLeftSpace (drop (leadingSpace s) s))"
  by pat_completeness auto
termination
proof (relation "measure length")
  show "wf (measure length)" by simp
next
  fix s :: string
  assume "leadingSpace s \<noteq> 0"
  then have "s \<noteq> []" by auto
  with \<open>leadingSpace s \<noteq> 0\<close> show "(drop (leadingSpace s) s, s) \<in> measure length"
    by simp
qed

function dropTrailingSpace :: "string \<Rightarrow> string" where
  "dropTrailingSpace r =
     (if trailingSpace r = 0 then r else dropTrailingSpace (drop (trailingSpace r) r))"
  by pat_completeness auto
termination
proof (relation "measure length")
  show "wf (measure length)" by simp
next
  fix r :: string
  assume "trailingSpace r \<noteq> 0"
  then have "r \<noteq> []" by auto
  with \<open>trailingSpace r \<noteq> 0\<close> show "(drop (trailingSpace r) r, r) \<in> measure length"
    by simp
qed

declare TrimLeftSpace.simps [simp del] dropTrailingSpace.simps [simp del]

definition TrimRightSpace :: "string \<Rightarrow> string" where
  "TrimRightSpace s = rev (dropTrailingSpace (rev s))"

definition TrimSpace :: "string \<Rightarrow> string" where
  "TrimSpace s = TrimRightSpace (TrimLeftSpace s)"

section \<open>Generated rows\<close>

text \<open>
  The dynamically typed values of a row (\<open>interface{}\<close>): what \<open>json.Unmarshal\<close> stores and
  what the deterministic generator stores.  The code never looks inside a number, so one
  constructor stands for \<open>float64\<close> and \<open>int\<close>.
\<close>

datatype val =
    VString string
  | VNumber int
  | VBool bool
  | VNull
  | VArray "val list"
  | VObject "(string \<times> val) list"

type_synonym GeneratedRow = "val gomap"

text \<open>
  The key under which a field is generated and validated: \<open>jsonTag := fieldInfo.JSONTag\<close>,
  replaced by the field name when empty.
\<close>

definition jsonTagFor :: "string \<Rightarrow> FieldInfo \<Rightarrow> string" where
  "jsonTagFor fieldName fieldInfo =
     (if JSONTag fieldInfo = [] then fieldName else JSONTag fieldInfo)"

text \<open>\<open>structInfos[name].Fields\<close>: a missing struct is the zero value, with no fields.\<close>

definition fieldsOf :: "StructInfos \<Rightarrow> string \<Rightarrow> FieldInfo gomap" where
  "fieldsOf structInfos name =
     (case map_of structInfos name of None \<Rightarrow> [] | Some info \<Rightarrow> Fields info)"

section \<open>The delegated strategy: \<open>GenerateData\<close>\<close>

datatype gen_error =
    BackendError string nat string
  | ParseError string string string
  | UnexpectedFormat string
  | NoValidResponse string
  | RowCountError string nat
  | MissingField nat string string
  | InvalidNested nat string string val
  | MissingNestedField nat string string string
  | NilDereference

subsection \<open>Schema validation of the rows\<close>

text \<open>The loop over the fields of the nested struct; \<open>i\<close> is the index of the row.\<close>

fun validateNested ::
    "nat \<Rightarrow> string \<Rightarrow> string \<Rightarrow> val gomap \<Rightarrow> FieldInfo gomap \<Rightarrow> gen_error option" where
  "validateNested i structName jsonTag nested [] = None"
| "validateNested i structName jsonTag nested ((nestedField, nestedFieldInfo) # rest) =
     (let nestedJsonTag = jsonTagFor nestedField nestedFieldInfo
      in if map_of nested nestedJsonTag = None
            \<and> \<not> Contains (JSONTag nestedFieldInfo) ''omitempty''
         then Some (MissingNestedField (i + 1) structName jsonTag nestedJsonTag)
         else validateNested i structName jsonTag nested rest)"

text \<open>The body of the loop over the fields of the struct, for one field.\<close>

definition validateField ::
    "StructInfos \<Rightarrow> nat \<Rightarrow> string \<Rightarrow> GeneratedRow \<Rightarrow> string \<Rightarrow> FieldInfo \<Rightarrow> gen_error option" where
  "validateField structInfos i structName row fieldName fieldInfo =
     (let jsonTag = jsonTagFor fieldName fieldInfo
      in case map_of row jsonTag of
           None \<Rightarrow> Some (MissingField (i + 1) structName jsonTag)
         | Some v \<Rightarrow>
             (case map_of structInfos (Type fieldInfo) of
                None \<Rightarrow> None
              | Some nestedStruct \<Rightarrow>
                  (case v of
                     VObject nested \<Rightarrow>
                       validateNested i structName jsonTag nested (Fields nestedStruct)
                   | _ \<Rightarrow> Some (InvalidNested (i + 1) structName jsonTag v))))"

fun validateFields ::
    "StructInfos \<Rightarrow> nat \<Rightarrow> string \<Rightarrow> GeneratedRow \<Rightarrow> FieldInfo gomap \<Rightarrow> gen_error option" where
  "validateFields structInfos i structName row [] = None"
| "validateFields structInfos i structName row ((fieldName, fieldInfo) # rest) =
     (case validateField structInfos i structName row fieldName fieldInfo of
        Some err \<Rightarrow> Some err
      | None \<Rightarrow> validateFields structInfos i structName row rest)"

text \<open>The loop over the rows, from index \<open>i\<close> on.\<close>

fun validateFrom ::
    "StructInfos \<Rightarrow> string \<Rightarrow> nat \<Rightarrow> GeneratedRow list \<Rightarrow> gen_error option" where
  "validateFrom structInfos structName i [] = None"
| "validateFrom structInfos structName i (row # rows) =
     (case validateFields structInfos i structName row (fieldsOf structInfos structName) of
        Some err \<Rightarrow> Some err
      | None \<Rightarrow> validateFrom structInfos structName (i + 1) rows)"

definition validateRows ::
    "StructInfos \<Rightarrow> string \<Rightarrow> GeneratedRow list \<Rightarrow> gen_error option" where
  "validateRows structInfos structName rows = validateFrom structInfos structName 0 rows"

text \<open>What \<open>GenerateData\<close> does with the parsed rows: the row count, then the schema.\<close>

definition checkRows ::
    "StructInfos \<Rightarrow> string \<Rightarrow> GeneratedRow list \<Rightarrow> gen_error + GeneratedRow list" where
  "checkRows structInfos structName rows =
     (if length rows < 25 \<or> length rows > 30
      then Inl (RowCountError structName (length rows))
      else case validateRows structInfos structName rows of
             Some err \<Rightarrow> Inl err
           | None \<Rightarrow> Inr rows)"

subsection \<open>Cleaning the reply\<close>

definition sanitize :: "string \<Rightarrow> string" where
  "sanitize content =
     (let c1 = TrimSpace content;
          c2 = TrimPrefix c1 ([backtick, backtick, backtick] @ ''json'' @ [newline]);
          c3 = TrimPrefix c2 ([backtick, backtick, backtick] @ [newline]);
          c4 = TrimSuffix c3 (newline # [backtick, backtick, backtick]);
          c5 = TrimSpace c4
      in if \<not> HasPrefix c5 ''['' \<or> \<not> HasSuffix c5 '']'' then ''['' @ c5 @ '']'' else c5)"

subsection \<open>The backend, the clock and the log\<close>

text \<open>
  The reply of \<open>GenerateContent\<close> as the code reads it: the candidates, of each the parts
  of its content, and of a part whether it is text.  The pointers inside a reply (the
  candidates and their content) are taken to be non-nil.
\<close>

datatype part = Text string | OtherPart

type_synonym candidate = "part list"

type_synonym response = "candidate list"

text \<open>
  What the program does to the world, in order: calls of the backend, sleeps (in
  seconds), the lines it logs, and files it writes.
\<close>

datatype save_error = NoDataToSave string | SaveAsError string

datatype event =
    CalledBackend
  | Slept nat
  | LogAttemptFailed nat string string
  | LogRawResponse string string
  | LogCleanedContent string string
  | LogProcessingFile string
  | LogSkippingNested string
  | LogProcessingStruct string
  | LogGenerateFailed string gen_error
  | LogSaving string
  | LogSaveFailed string save_error
  | LogGenerated string
  | WroteFile string

text \<open>
  The world: how many times the backend has been called, and the events so far.  The
  external parts are parameters: the backend gives the outcome of its \<open>k\<close>-th call for
  the two strings the prompt is built from; \<open>Unmarshal\<close> is \<open>json.Unmarshal\<close> into a
  slice of rows; \<open>SaveAs\<close> is the spreadsheet writer; \<open>Join\<close> is \<open>filepath.Join\<close>.
\<close>

record world =
  calls :: nat
  events :: "event list"

record env =
  GenerateContent :: "string \<Rightarrow> string \<Rightarrow> nat \<Rightarrow> string + response"
  Unmarshal :: "string \<Rightarrow> string + GeneratedRow list"
  SaveAs :: "string \<Rightarrow> GeneratedRow list \<Rightarrow> string option"
  Join :: "string \<Rightarrow> string \<Rightarrow> string"

definition emit :: "event \<Rightarrow> world \<Rightarrow> world" where
  "emit e w = w\<lparr>events := events w @ [e]\<rparr>"

definition apiRetries :: nat where
  "apiRetries = 2"

definition allDefs :: "StructInfos \<Rightarrow> string" where
  "allDefs structInfos =
     concat (map (\<lambda>(name, info). Def info @ [newline, newline]) structInfos)"

subsection \<open>The retry loop\<close>

text \<open>
  The loop \<open>for attempt := 1; attempt <= apiRetries; attempt++\<close>.  Left by its condition,
  the loop leaves \<open>resp\<close> nil, and the next statement dereferences it.
\<close>

function generateWithRetries ::
    "env \<Rightarrow> string \<Rightarrow> string \<Rightarrow> nat \<Rightarrow> world \<Rightarrow> (gen_error + response) \<times> world" where
  "generateWithRetries env defs structName attempt w =
     (if attempt \<le> apiRetries
      then let w1 = emit CalledBackend (w\<lparr>calls := calls w + 1\<rparr>)
           in case GenerateContent env defs structName (calls w) of
                Inr resp \<Rightarrow> (Inr resp, w1)
              | Inl err \<Rightarrow>
                  (let w2 = emit (LogAttemptFailed attempt structName err) w1
                   in if attempt = apiRetries
                      then (Inl (BackendError structName apiRetries err), w2)
                      else generateWithRetries env defs structName (attempt + 1)
                             (emit (Slept 1) w2))
      else (Inl NilDereference, w))"
  by pat_completeness auto
termination
  by (relation "measure (\<lambda>(env, defs, structName, attempt, w). apiRetries + 1 - attempt)")
     auto

declare generateWithRetries.simps [simp del]

subsection \<open>Reading the reply\<close>

definition parseResponse ::
    "env \<Rightarrow> string \<Rightarrow> response \<Rightarrow> world \<Rightarrow> (gen_error + GeneratedRow list) \<times> world" where
  "parseResponse env structName resp w =
     (case resp of
        [] \<Rightarrow> (Inl (NoValidResponse structName), w)
      | [] # _ \<Rightarrow> (Inl (NoValidResponse structName), w)
      | (OtherPart # _) # _ \<Rightarrow> (Inl (UnexpectedFormat structName), w)
      | (Text content # _) # _ \<Rightarrow>
          (let w1 = emit (LogRawResponse structName content) w;
               cleaned = sanitize content;
               w2 = emit (LogCleanedContent structName cleaned) w1
           in case Unmarshal env cleaned of
                Inl err \<Rightarrow> (Inl (ParseError structName err cleaned), w2)
              | Inr rows \<Rightarrow> (Inr rows, w2)))"

definition GenerateData ::
    "env \<Rightarrow> string \<Rightarrow> StructInfos \<Rightarrow> world \<Rightarrow> (gen_error + GeneratedRow list) \<times> world" where
  "GenerateData env structName structInfos w =
     (case generateWithRetries env (allDefs structInfos) structName 1 w of
        (Inl err, w1) \<Rightarrow> (Inl err, w1)
      | (Inr resp, w1) \<Rightarrow>
          (case parseResponse env structName resp w1 of
             (Inl err, w2) \<Rightarrow> (Inl err, w2)
           | (Inr rows, w2) \<Rightarrow> (checkRows structInfos structName rows, w2)))"

section \<open>The pipeline driver: \<open>SaveToExcel\<close> and \<open>ProcessModel\<close>\<close>

text \<open>
  \<open>SaveToExcel\<close> refuses an empty list of rows; otherwise it fills the sheet from the rows
  and saves it.  The cells are the writer's business: it receives the rows.
\<close>

definition SaveToExcel ::
    "env \<Rightarrow> string \<Rightarrow> GeneratedRow list \<Rightarrow> string \<Rightarrow> world \<Rightarrow> save_error option \<times> world" where
  "SaveToExcel env structName rows outputPath w =
     (if length rows = 0 then (Some (NoDataToSave structName), w)
      else let w1 = emit (LogSaving outputPath) w
           in case SaveAs env outputPath rows of
                Some err \<Rightarrow> (Some (SaveAsError err), w1)
              | None \<Rightarrow> (None, emit (WroteFile outputPath) w1))"

text \<open>A call either returns or panics; a panic ends the program.\<close>

datatype 'a outcome = Returned 'a | Panicked

text \<open>The loop of \<open>ProcessModel\<close> over the entries of the graph still to visit.\<close>

fun processStructs ::
    "env \<Rightarrow> string \<Rightarrow> StructInfos \<Rightarrow> StructInfos \<Rightarrow> world
      \<Rightarrow> extract_error option outcome \<times> world" where
  "processStructs env outputDir structInfos [] w = (Returned None, w)"
| "processStructs env outputDir structInfos ((structName, info) # rest) w =
     (if IsNested info
      then processStructs env outputDir structInfos rest (emit (LogSkippingNested structName) w)
      else case GenerateData env structName structInfos
                  (emit (LogProcessingStruct structName) w) of
             (Inl NilDereference, w2) \<Rightarrow> (Panicked, w2)
           | (Inl err, w2) \<Rightarrow>
               processStructs env outputDir structInfos rest
                 (emit (LogGenerateFailed structName err) w2)
           | (Inr rows, w2) \<Rightarrow>
               (let outputPath = Join env outputDir (structName @ ''_output.xlsx'')
                in case SaveToExcel env structName rows outputPath w2 of
                     (Some err, w3) \<Rightarrow>
                       processStructs env outputDir structInfos rest
                         (emit (LogSaveFailed structName err) w3)
                   | (None, w3) \<Rightarrow>
                       processStructs env outputDir structInfos rest
                         (emit (LogGenerated outputPath) w3)))"

definition ProcessModel ::
    "env \<Rightarrow> printer \<Rightarrow> string + decl list \<Rightarrow> string \<Rightarrow> string \<Rightarrow> world
      \<Rightarrow> extract_error option outcome \<times> world" where
  "ProcessModel env prt parsed inputPath outputDir w =
     (let w0 = emit (LogProcessingFile inputPath) w
      in case extractStructDefs prt parsed of
           Inl err \<Rightarrow> (Returned (Some err), w0)
         | Inr structInfos \<Rightarrow> processStructs env outputDir structInfos structInfos w0)"

section \<open>The deterministic strategy: \<open>generateCustomer\<close>\<close>

text \<open>
  The functions of \<open>gofakeit\<close> that the code calls draw from one seeded random source.
  Each takes the number of draws made before it, so that any sequence of results is
  some value of this record.
\<close>

record gofakeit =
  Name :: "nat \<Rightarrow> string"
  RandomString :: "nat \<Rightarrow> string list \<Rightarrow> string"
  UUID :: "nat \<Rightarrow> string"
  Number :: "nat \<Rightarrow> int \<Rightarrow> int \<Rightarrow> int"
  PhoneFormatted :: "nat \<Rightarrow> string"

datatype customer_error =
    RowMissingField nat string
  | InvalidPhoneField nat val
  | MissingPhoneField nat string
  | SliceOutOfRange

text \<open>The slice expressions \<open>s[:n]\<close> and \<open>s[n:]\<close>, which panic when \<open>n\<close> exceeds the length.\<close>

definition sliceTo :: "string \<Rightarrow> nat \<Rightarrow> customer_error + string" where
  "sliceTo s n = (if n \<le> length s then Inr (take n s) else Inl SliceOutOfRange)"

definition sliceFrom :: "string \<Rightarrow> nat \<Rightarrow> customer_error + string" where
  "sliceFrom s n = (if n \<le> length s then Inr (drop n s) else Inl SliceOutOfRange)"

text \<open>
  The loop over the fields of \<open>Phone\<close>, which fills the nested row; \<open>n\<close> counts the draws.
\<close>

fun generatePhone ::
    "gofakeit \<Rightarrow> FieldInfo gomap \<Rightarrow> val gomap \<Rightarrow> nat \<Rightarrow> customer_error + val gomap \<times> nat" where
  "generatePhone fk [] nestedRow n = Inr (nestedRow, n)"
| "generatePhone fk ((nestedFieldName, nestedFieldInfo) # rest) nestedRow n =
     (let nestedJsonTag = jsonTagFor nestedFieldName nestedFieldInfo
      in if nestedFieldName = ''p1''
         then (case sliceTo (PhoneFormatted fk n) 2 of
                 Inl err \<Rightarrow> Inl err
               | Inr code \<Rightarrow>
                   generatePhone fk rest
                     (AList.update nestedJsonTag (VString code) nestedRow) (n + 1))
         else if nestedFieldName = ''p2''
         then (case sliceFrom (PhoneFormatted fk n) 3 of
                 Inl err \<Rightarrow> Inl err
               | Inr number \<Rightarrow>
                   generatePhone fk rest
                     (AList.update nestedJsonTag (VString number) nestedRow) (n + 1))
         else generatePhone fk rest nestedRow n)"

text \<open>The loop over the fields of \<open>Customer\<close>, which fills one row.\<close>

fun generateFields ::
    "gofakeit \<Rightarrow> StructInfos \<Rightarrow> FieldInfo gomap \<Rightarrow> GeneratedRow \<Rightarrow> nat
      \<Rightarrow> customer_error + GeneratedRow \<times> nat" where
  "generateFields fk structInfos [] row n = Inr (row, n)"
| "generateFields fk structInfos ((fieldName, fieldInfo) # rest) row n =
     (let jsonTag = jsonTagFor fieldName fieldInfo
      in if Type fieldInfo = ''Phone''
         then (case generatePhone fk (fieldsOf structInfos ''Phone'') [] n of
                 Inl err \<Rightarrow> Inl err
               | Inr (nestedRow, n') \<Rightarrow>
                   generateFields fk structInfos rest
                     (AList.update jsonTag (VObject nestedRow) row) n')
         else if fieldName = ''Name''
         then generateFields fk structInfos rest
                (AList.update jsonTag (VString (Name fk n)) row) (n + 1)
         else if fieldName = ''Type''
         then generateFields fk structInfos rest
                (AList.update jsonTag
                   (VString (RandomString fk n [''Individual'', ''Business'', ''NonProfit'']))
                   row) (n + 1)
         else if fieldName = ''CustomerID''
         then generateFields fk structInfos rest
                (AList.update jsonTag (VString (UUID fk n)) row) (n + 1)
         else if fieldName = ''TaxIdNumber''
         then generateFields fk structInfos rest
                (AList.update jsonTag (VNumber (Number fk n 100000000 999999999)) row) (n + 1)
         else generateFields fk structInfos rest row n)"

text \<open>The loop \<open>for i := 0; i < 30; i++\<close>, by the number of rows still to generate.\<close>

fun generateRows ::
    "gofakeit \<Rightarrow> StructInfos \<Rightarrow> nat \<Rightarrow> nat \<Rightarrow> customer_error + GeneratedRow list \<times> nat" where
  "generateRows fk structInfos 0 n = Inr ([], n)"
| "generateRows fk structInfos (Suc k) n =
     (case generateFields fk structInfos (fieldsOf structInfos ''Customer'') [] n of
        Inl err \<Rightarrow> Inl err
      | Inr (row, n') \<Rightarrow>
          (case generateRows fk structInfos k n' of
             Inl err \<Rightarrow> Inl err
           | Inr (rows, n'') \<Rightarrow> Inr (row # rows, n'')))"

text \<open>The validation at the end of \<open>generateCustomer\<close>.\<close>

fun validatePhone :: "nat \<Rightarrow> val gomap \<Rightarrow> FieldInfo gomap \<Rightarrow> customer_error option" where
  "validatePhone i nested [] = None"
| "validatePhone i nested ((nestedField, nestedFieldInfo) # rest) =
     (let nestedJsonTag = jsonTagFor nestedField nestedFieldInfo
      in if map_of nested nestedJsonTag = None
         then Some (MissingPhoneField (i + 1) nestedJsonTag)
         else validatePhone i nested rest)"

definition validateCustomerField ::
    "StructInfos \<Rightarrow> nat \<Rightarrow> GeneratedRow \<Rightarrow> string \<Rightarrow> FieldInfo \<Rightarrow> customer_error option" where
  "validateCustomerField structInfos i row fieldName fieldInfo =
     (let jsonTag = jsonTagFor fieldName fieldInfo
      in case map_of row jsonTag of
           None \<Rightarrow> Some (RowMissingField (i + 1) jsonTag)
         | Some v \<Rightarrow>
             (if Type fieldInfo = ''Phone''
              then (case v of
                      VObject nested \<Rightarrow> validatePhone i nested (fieldsOf structInfos ''Phone'')
                    | _ \<Rightarrow> Some (InvalidPhoneField (i + 1) v))
              else None))"

fun validateCustomerFields ::
    "StructInfos \<Rightarrow> nat \<Rightarrow> GeneratedRow \<Rightarrow> FieldInfo gomap \<Rightarrow> customer_error option" where
  "validateCustomerFields structInfos i row [] = None"
| "validateCustomerFields structInfos i row ((fieldName, fieldInfo) # rest) =
     (case validateCustomerField structInfos i row fieldName fieldInfo of
        Some err \<Rightarrow> Some err
      | None \<Rightarrow> validateCustomerFields structInfos i row rest)"

fun validateCustomerFrom ::
    "StructInfos \<Rightarrow> nat \<Rightarrow> GeneratedRow list \<Rightarrow> customer_error option" where
  "validateCustomerFrom structInfos i [] = None"
| "validateCustomerFrom structInfos i (row # rows) =
     (case validateCustomerFields structInfos i row (fieldsOf structInfos ''Customer'') of
        Some err \<Rightarrow> Some err
      | None \<Rightarrow> validateCustomerFrom structInfos (i + 1) rows)"

definition generateCustomer ::
    "gofakeit \<Rightarrow> StructInfos \<Rightarrow> customer_error + GeneratedRow list" where
  "generateCustomer fk structInfos =
     (case generateRows fk structInfos 30 0 of
        Inl err \<Rightarrow> Inl err
      | Inr (rows, n) \<Rightarrow>
          (case validateCustomerFrom structInfos 0 rows of
             Some err \<Rightarrow> Inl err
           | None \<Rightarrow> Inr rows))"

section \<open>White space and fences\<close>

text \<open>
  The white-space characters of Unicode, each as its UTF-8 bytes; a string of white space
  is the concatenation of a list of them.
\<close>

definition spaceRunes :: "string list" where
  "spaceRunes =
     [[CHR 0x09], [CHR 0x0A], [CHR 0x0B], [CHR 0x0C], [CHR 0x0D], [CHR 0x20],
      [CHR 0xC2, CHR 0x85], [CHR 0xC2, CHR 0xA0],
      [CHR 0xE1, CHR 0x9A, CHR 0x80],
      [CHR 0xE2, CHR 0x80, CHR 0x80], [CHR 0xE2, CHR 0x80, CHR 0x81],
      [CHR 0xE2, CHR 0x80, CHR 0x82], [CHR 0xE2, CHR 0x80, CHR 0x83],
      [CHR 0xE2, CHR 0x80, CHR 0x84], [CHR 0xE2, CHR 0x80, CHR 0x85],
      [CHR 0xE2, CHR 0x80, CHR 0x86], [CHR 0xE2, CHR 0x80, CHR 0x87],
      [CHR 0xE2, CHR 0x80, CHR 0x88], [CHR 0xE2, CHR 0x80, CHR 0x89],
      [CHR 0xE2, CHR 0x80, CHR 0x8A],
      [CHR 0xE2, CHR 0x80, CHR 0xA8], [CHR 0xE2, CHR 0x80, CHR 0xA9],
      [CHR 0xE2, CHR 0x80, CHR 0xAF],
      [CHR 0xE2, CHR 0x81, CHR 0x9F],
      [CHR 0xE3, CHR 0x80, CHR 0x80]]"

text \<open>The three backquotes that open and close a fenced block.\<close>

definition fence :: string where
  "fence = [backtick, backtick, backtick]"

section \<open>Conforming rows\<close>

text \<open>
  What the specification asks of a row, in its own words: the row holds a value under
  the wire name of every field of the struct, and where the type of a field names a
  struct of the graph, that value is an object which holds a value under the wire name of
  every field of that struct, save those whose tag contains \<open>omitempty\<close>.
\<close>

definition present :: "GeneratedRow \<Rightarrow> string \<Rightarrow> FieldInfo \<Rightarrow> bool" where
  "present row fieldName fieldInfo \<longleftrightarrow> map_of row (jsonTagFor fieldName fieldInfo) \<noteq> None"

definition nestedComplete :: "val gomap \<Rightarrow> FieldInfo gomap \<Rightarrow> bool" where
  "nestedComplete nested flds \<longleftrightarrow>
     (\<forall>(nf, nfi) \<in> set flds.
        map_of nested (jsonTagFor nf nfi) \<noteq> None \<or> Contains (JSONTag nfi) ''omitempty'')"

definition nestedConforms :: "StructInfos \<Rightarrow> GeneratedRow \<Rightarrow> string \<Rightarrow> FieldInfo \<Rightarrow> bool" where
  "nestedConforms g row fieldName fieldInfo \<longleftrightarrow>
     (case map_of g (Type fieldInfo) of
        None \<Rightarrow> True
      | Some nestedStruct \<Rightarrow>
          (case map_of row (jsonTagFor fieldName fieldInfo) of
             Some (VObject nested) \<Rightarrow> nestedComplete nested (Fields nestedStruct)
           | _ \<Rightarrow> False))"

definition conforms :: "StructInfos \<Rightarrow> string \<Rightarrow> GeneratedRow \<Rightarrow> bool" where
  "conforms g name row \<longleftrightarrow>
     (\<forall>(f, fi) \<in> set (fieldsOf g name). present row f fi \<and> nestedConforms g row f fi)"

text \<open>
  What the validation at the end of \<open>generateCustomer\<close> asks of a row: a value under the
  wire name of every field of \<open>Customer\<close>, and for a field of type \<open>Phone\<close> an object with
  a value under the wire name of every field of \<open>Phone\<close>.
\<close>

definition phoneComplete :: "StructInfos \<Rightarrow> val gomap \<Rightarrow> bool" where
  "phoneComplete g nested \<longleftrightarrow>
     (\<forall>(nf, nfi) \<in> set (fieldsOf g ''Phone''). map_of nested (jsonTagFor nf nfi) \<noteq> None)"

definition customerRow :: "StructInfos \<Rightarrow> GeneratedRow \<Rightarrow> bool" where
  "customerRow g row \<longleftrightarrow>
     (\<forall>(f, fi) \<in> set (fieldsOf g ''Customer'').
        \<exists>v. map_of row (jsonTagFor f fi) = Some v \<and>
            (Type fi = ''Phone'' \<longrightarrow> (\<exists>nested. v = VObject nested \<and> phoneComplete g nested)))"

section \<open>The log of the driver\<close>

text \<open>The events that come from within \<open>GenerateData\<close>.\<close>

fun agentEvent :: "event \<Rightarrow> bool" where
  "agentEvent CalledBackend = True"
| "agentEvent (Slept d) = True"
| "agentEvent (LogAttemptFailed attempt name err) = True"
| "agentEvent (LogRawResponse name content) = True"
| "agentEvent (LogCleanedContent name content) = True"
| "agentEvent e = False"

text \<open>The structs whose processing is announced, in order.\<close>

fun started :: "event list \<Rightarrow> string list" where
  "started [] = []"
| "started (LogProcessingStruct name # evs) = name # started evs"
| "started (e # evs) = started evs"

text \<open>
  What the specification asks of the driver, as a relation between the records of the
  graph, in the order of the loop, and the events of the driver: a nested record is
  skipped; any other record is announced, and then either the failure of its generation
  is reported, or its rows are saved and the failure of the save is reported, or they are
  saved and the file is reported; then comes the next record.
\<close>

inductive driverLog :: "env \<Rightarrow> string \<Rightarrow> StructInfos \<Rightarrow> event list \<Rightarrow> bool"
  for env :: env and dir :: string where
  finished: "driverLog env dir [] []"
| skipped:
    "IsNested info \<Longrightarrow> driverLog env dir rest evs \<Longrightarrow>
     driverLog env dir ((name, info) # rest) (LogSkippingNested name # evs)"
| generateFailed:
    "\<not> IsNested info \<Longrightarrow> driverLog env dir rest evs \<Longrightarrow>
     driverLog env dir ((name, info) # rest)
       (LogProcessingStruct name # LogGenerateFailed name err # evs)"
| saveFailed:
    "\<not> IsNested info \<Longrightarrow> driverLog env dir rest evs \<Longrightarrow>
     path = Join env dir (name @ ''_output.xlsx'') \<Longrightarrow>
     driverLog env dir ((name, info) # rest)
       (LogProcessingStruct name # LogSaving path # LogSaveFailed name (SaveAsError err) # evs)"
| exported:
    "\<not> IsNested info \<Longrightarrow> driverLog env dir rest evs \<Longrightarrow>
     path = Join env dir (name @ ''_output.xlsx'') \<Longrightarrow>
     driverLog env dir ((name, info) # rest)
       (LogProcessingStruct name # LogSaving path # WroteFile path # LogGenerated path # evs)"

section \<open>A sample source unit\<close>

text \<open>
  A unit that declares \<open>Customer\<close> before the \<open>Phone\<close> it refers to:
  \<^verbatim>\<open>
  type Customer struct {
      CustomerID string `json:"customer_id"`
      Type       string `json:"type"`
      Phone      Phone  `json:"phone"`
  }
  type Phone struct {
      p1 string `json:"country_code"`
      p2 string `json:"number,omitempty"`
  }
  \<close>
  and what \<open>extractStructDefs\<close> makes of it, with a printer that prints the name only.
\<close>

definition tagLiteral :: "string \<Rightarrow> string" where
  "tagLiteral body = [backtick] @ ''json:'' @ [dquote] @ body @ [dquote, backtick]"

definition customerUnit :: "decl list" where
  "customerUnit =
     [GenDecl token_IMPORT [OtherSpec],
      GenDecl token_TYPE
        [TypeSpec ''Customer'' (StructType
           [Field [''CustomerID''] (Ident ''string'') (Some (tagLiteral ''customer_id'')),
            Field [''Type''] (Ident ''string'') (Some (tagLiteral ''type'')),
            Field [''Phone''] (Ident ''Phone'') (Some (tagLiteral ''phone''))])],
      GenDecl token_TYPE
        [TypeSpec ''Phone'' (StructType
           [Field [''p1''] (Ident ''string'') (Some (tagLiteral ''country_code'')),
            Field [''p2''] (Ident ''string'') (Some (tagLiteral ''number,omitempty''))])]]"

fun printName :: "spec \<Rightarrow> string + string" where
  "printName (TypeSpec name t) = Inr name"
| "printName OtherSpec = Inl ''not a type''"

definition customerInfo :: StructInfo where
  "customerInfo =
     \<lparr>Def = ''Customer'',
      Fields = [(''CustomerID'', \<lparr>Type = ''string'', JSONTag = ''customer_id''\<rparr>),
                (''Type'', \<lparr>Type = ''string'', JSONTag = ''type''\<rparr>),
                (''Phone'', \<lparr>Type = ''Phone'', JSONTag = ''phone''\<rparr>)],
      IsNested = False\<rparr>"

definition phoneInfo :: StructInfo where
  "phoneInfo =
     \<lparr>Def = ''Phone'',
      Fields = [(''p1'', \<lparr>Type = ''string'', JSONTag = ''country_code''\<rparr>),
                (''p2'', \<lparr>Type = ''string'', JSONTag = ''number''\<rparr>)],
      IsNested = True\<rparr>"

definition customerGraph :: StructInfos where
  "customerGraph = [(''Customer'', customerInfo), (''Phone'', phoneInfo)]"

text \<open>
  Two rows for \<open>Customer\<close>, the second without its \<open>type\<close>; a backend that answers at once,
  with a parser that yields the given rows; and the world before the program runs.
\<close>

definition goodRow :: GeneratedRow where
  "goodRow =
     [(''customer_id'', VString ''c-001''),
      (''type'', VString ''Business''),
      (''phone'', VObject [(''country_code'', VString ''+1''), (''number'', VString ''555-1234'')])]"

definition badRow :: GeneratedRow where
  "badRow =
     [(''customer_id'', VString ''c-002''),
      (''phone'', VObject [(''country_code'', VString ''+1''), (''number'', VString ''555-1234'')])]"

definition sampleEnv :: "GeneratedRow list \<Rightarrow> env" where
  "sampleEnv rows =
     \<lparr>GenerateContent = (\<lambda>defs name k. Inr [[Text ''[]'']]),
      Unmarshal = (\<lambda>s. Inr rows),
      SaveAs = (\<lambda>path rows. None),
      Join = (\<lambda>dir file. dir @ ''/'' @ file)\<rparr>"

definition startWorld :: world where
  "startWorld = \<lparr>calls = 0, events = []\<rparr>"

text \<open>A backend that fails at every call, the first time differently.\<close>

definition failingEnv :: env where
  "failingEnv =
     \<lparr>GenerateContent = (\<lambda>defs name k. if k = 0 then Inl ''timeout'' else Inl ''quota''),
      Unmarshal = (\<lambda>s. Inr []),
      SaveAs = (\<lambda>path rows. None),
      Join = (\<lambda>dir file. dir @ ''/'' @ file)\<rparr>"

text \<open>A row for \<open>Customer\<close> whose phone lacks the number.\<close>

definition sparseRow :: GeneratedRow where
  "sparseRow =
     [(''customer_id'', VString ''c-003''),
      (''type'', VString ''Individual''),
      (''phone'', VObject [(''country_code'', VString ''+44'')])]"

text \<open>
  Two random sources: one whose formatter returns two phone values in turn, and one that
  returns the same values at every draw, with the row it leads to.
\<close>

definition twoPhones :: gofakeit where
  "twoPhones =
     \<lparr>Name = (\<lambda>n. ''Ada Lovelace''),
      RandomString = (\<lambda>n options. hd options),
      UUID = (\<lambda>n. ''c0ffee00-0000-4000-8000-000000000000''),
      Number = (\<lambda>n lo hi. lo),
      PhoneFormatted = (\<lambda>n. if even n then ''202-555-0143'' else ''415-555-0199'')\<rparr>"

definition steadyFaker :: gofakeit where
  "steadyFaker =
     \<lparr>Name = (\<lambda>n. ''Ada Lovelace''),
      RandomString = (\<lambda>n options. hd options),
      UUID = (\<lambda>n. ''c0ffee00-0000-4000-8000-000000000000''),
      Number = (\<lambda>n lo hi. lo),
      PhoneFormatted = (\<lambda>n. ''202-555-0143'')\<rparr>"

definition steadyRow :: GeneratedRow where
  "steadyRow =
     [(''customer_id'', VString ''c0ffee00-0000-4000-8000-000000000000''),
      (''type'', VString ''Individual''),
      (''phone'', VObject [(''country_code'', VString ''20''),
                          (''number'', VString ''-555-0143'')])]"

section \<open>Notions used in the proofs\<close>

text \<open>The graph with the mark set on the structs whose name satisfies \<open>P\<close>.\<close>

definition setNested :: "(string \<Rightarrow> bool) \<Rightarrow> StructInfos \<Rightarrow> StructInfos" where
  "setNested P g = map (\<lambda>(k, i). (k, i\<lparr>IsNested := IsNested i \<or> P k\<rparr>)) g"

text \<open>The declared types of all fields of all structs of a graph.\<close>

definition fieldTypes :: "StructInfos \<Rightarrow> string list" where
  "fieldTypes es = concat (map (\<lambda>(n, r). map (\<lambda>(f, fi). Type fi) (Fields r)) es)"

text \<open>The number of calls of the backend among the events of a world.\<close>

definition backendCalls :: "world \<Rightarrow> nat" where
  "backendCalls w = length (filter (\<lambda>e. e = CalledBackend) (events w))"

text \<open>Bytes with which no white-space character starts, and with which none ends.\<close>

definition plain :: "char \<Rightarrow> bool" where
  "plain c \<longleftrightarrow> c = CHR ''['' \<or> c = CHR '']'' \<or> c = backtick"

text \<open>
  The wire names of the fields of \<open>Phone\<close>, and rows in which every object has distinct
  keys among them.
\<close>

definition phoneTags :: "StructInfos \<Rightarrow> string set" where
  "phoneTags g = (\<lambda>(f, fi). jsonTagFor f fi) ` set (fieldsOf g ''Phone'')"

definition objectsShaped :: "StructInfos \<Rightarrow> GeneratedRow \<Rightarrow> bool" where
  "objectsShaped g row \<longleftrightarrow>
     (\<forall>(k, v) \<in> set row. \<forall>nested. v = VObject nested \<longrightarrow>
        distinct (map fst nested) \<and> fst ` set nested \<subseteq> phoneTags g)"

text \<open>The fields for which \<open>generateCustomer\<close> has a rule.\<close>

definition knownField :: "string \<Rightarrow> FieldInfo \<Rightarrow> bool" where
  "knownField f fi \<longleftrightarrow>
     Type fi = ''Phone'' \<or> f \<in> set [''Name'', ''Type'', ''CustomerID'', ''TaxIdNumber'']"

section \<open>The string functions\<close>

lemma Split_nonempty: "Split s sep = [] \<Longrightarrow> s = [] \<and> sep = []"
  by (subst (asm) Split.simps) (auto split: if_splits option.splits)

section \<open>The nesting pass\<close>

lemma markType_keys: "map fst (markType t g) = map fst g"
  by (auto simp: markType_def update_keys map_of_eq_None_iff split: option.splits dest: map_of_SomeD)

lemma setNested_keys: "map fst (setNested P g) = map fst g"
  by (induction g) (auto simp: setNested_def)

lemma setNested_absent: "t \<notin> fst ` set g \<Longrightarrow> setNested (\<lambda>k. k = t) g = g"
  by (induction g) (auto simp: setNested_def)

lemma markType_setNested:
  "distinct (map fst g) \<Longrightarrow> markType t g = setNested (\<lambda>k. k = t) g"
proof (induction g)
  case Nil
  show ?case by (simp add: markType_def setNested_def)
next
  case (Cons p g)
  obtain k i where p: "p = (k, i)" by (cases p)
  show ?case
  proof (cases "k = t")
    case True
    with Cons.prems p have "t \<notin> fst ` set g" by auto
    then have "setNested (\<lambda>k. k = t) g = g" by (rule setNested_absent)
    then have "setNested (\<lambda>k. k = t) (p # g) = (t, i\<lparr>IsNested := True\<rparr>) # g"
      using p True by (simp add: setNested_def)
    moreover have "markType t (p # g) = (t, i\<lparr>IsNested := True\<rparr>) # g"
      using p True by (simp add: markType_def)
    ultimately show ?thesis by simp
  next
    case False
    from Cons have IH: "markType t g = setNested (\<lambda>k. k = t) g" by simp
    have "markType t (p # g) = p # markType t g"
      using p False by (simp add: markType_def split: option.splits)
    moreover have "setNested (\<lambda>k. k = t) (p # g) = p # setNested (\<lambda>k. k = t) g"
      using p False by (simp add: setNested_def)
    ultimately show ?thesis using IH by simp
  qed
qed

lemma setNested_setNested:
  "setNested P (setNested Q g) = setNested (\<lambda>k. Q k \<or> P k) g"
  by (induction g) (auto simp: setNested_def)

lemma fold_markType:
  "distinct (map fst g) \<Longrightarrow> fold markType ts g = setNested (\<lambda>k. k \<in> set ts) g"
proof (induction ts arbitrary: g)
  case Nil
  show ?case by (induction g) (auto simp: setNested_def)
next
  case (Cons t ts)
  have "fold markType (t # ts) g = fold markType ts (setNested (\<lambda>k. k = t) g)"
    using Cons.prems by (simp add: markType_setNested)
  also have "\<dots> = setNested (\<lambda>k. k \<in> set ts) (setNested (\<lambda>k. k = t) g)"
    using Cons.prems by (intro Cons.IH) (simp add: setNested_keys)
  also have "\<dots> = setNested (\<lambda>k. k \<in> set (t # ts)) g"
    by (simp add: setNested_setNested)
  finally show ?case .
qed


lemma markFields_fold: "markFields fs g = fold markType (map (\<lambda>(f, fi). Type fi) fs) g"
  by (simp add: markFields_def fold_map comp_def case_prod_unfold)

lemma fold_markFields:
  "fold (\<lambda>(n, r). markFields (Fields r)) es g = fold markType (fieldTypes es) g"
  by (induction es arbitrary: g) (auto simp: fieldTypes_def markFields_fold)

lemma markNested_setNested:
  "distinct (map fst g) \<Longrightarrow> markNested g = setNested (\<lambda>k. k \<in> set (fieldTypes g)) g"
  by (simp add: markNested_def fold_markFields fold_markType)

lemma addSpec_inv:
  "distinct (map fst g) \<and> (\<forall>(n, r) \<in> set g. \<not> IsNested r) \<Longrightarrow>
   distinct (map fst (addSpec prt sp g)) \<and> (\<forall>(n, r) \<in> set (addSpec prt sp g). \<not> IsNested r)"
proof (induction prt sp g rule: addSpec.induct)
  case (1 prt name fieldList structInfos)
  show ?case
  proof (cases "prt (TypeSpec name (StructType fieldList))")
    case (Inl err)
    with "1" show ?thesis by simp
  next
    case (Inr printed)
    let ?v = "\<lparr>Def = printed, Fields = collectFields fieldList, IsNested = False\<rparr>"
    have "set (AList.update name ?v structInfos) \<subseteq> insert (name, ?v) (set structInfos)"
      by (induction structInfos) auto
    with "1" Inr show ?thesis by (auto simp: distinct_update)
  qed
qed simp_all

lemma fold_addSpec_inv:
  "distinct (map fst g) \<and> (\<forall>(n, r) \<in> set g. \<not> IsNested r) \<Longrightarrow>
   distinct (map fst (fold (addSpec prt) sps g)) \<and>
   (\<forall>(n, r) \<in> set (fold (addSpec prt) sps g). \<not> IsNested r)"
proof (induction sps arbitrary: g)
  case Nil
  then show ?case by simp
next
  case (Cons sp sps)
  from Cons.prems have "distinct (map fst (addSpec prt sp g)) \<and> (\<forall>(n, r) \<in> set (addSpec prt sp g). \<not> IsNested r)"
    by (rule addSpec_inv)
  then show ?case using Cons.IH by simp
qed

lemma fold_addDecl_inv:
  "distinct (map fst g) \<and> (\<forall>(n, r) \<in> set g. \<not> IsNested r) \<Longrightarrow>
   distinct (map fst (fold (addDecl prt) ds g)) \<and>
   (\<forall>(n, r) \<in> set (fold (addDecl prt) ds g). \<not> IsNested r)"
proof (induction ds arbitrary: g)
  case Nil
  then show ?case by simp
next
  case (Cons d ds)
  have "distinct (map fst (addDecl prt d g)) \<and> (\<forall>(n, r) \<in> set (addDecl prt d g). \<not> IsNested r)"
  proof (cases d)
    case (GenDecl tok specs)
    with Cons.prems fold_addSpec_inv [of g prt specs] show ?thesis by simp
  next
    case FuncDecl
    with Cons.prems show ?thesis by simp
  qed
  then show ?case using Cons.IH by simp
qed

lemma collectStructs_inv:
  "distinct (map fst (collectStructs prt decls))"
  "(n, r) \<in> set (collectStructs prt decls) \<Longrightarrow> \<not> IsNested r"
  using fold_addDecl_inv [of "[]" prt decls] by (auto simp: collectStructs_def)

lemma mem_fieldTypes:
  "t \<in> set (fieldTypes g) \<longleftrightarrow> (\<exists>(m, r) \<in> set g. \<exists>(f, fi) \<in> set (Fields r). Type fi = t)"
  by (auto simp: fieldTypes_def) force

lemma fieldTypes_setNested: "fieldTypes (setNested P g) = fieldTypes g"
  by (induction g) (auto simp: fieldTypes_def setNested_def)

lemma markNested_iff:
  assumes "distinct (map fst g)" and "\<forall>(n, r) \<in> set g. \<not> IsNested r"
    and "(n, info) \<in> set (markNested g)"
  shows "IsNested info \<longleftrightarrow> n \<in> set (fieldTypes (markNested g))"
proof -
  let ?P = "\<lambda>k. k \<in> set (fieldTypes g)"
  have eq: "markNested g = setNested ?P g"
    using assms(1) by (rule markNested_setNested)
  with assms(3) obtain i where "(n, i) \<in> set g" "info = i\<lparr>IsNested := IsNested i \<or> ?P n\<rparr>"
    by (auto simp: setNested_def)
  with assms(2) have "IsNested info \<longleftrightarrow> ?P n" by auto
  then show ?thesis by (simp add: eq fieldTypes_setNested)
qed

text \<open>
  Claim C1.  When \<open>extractStructDefs\<close> succeeds and returns the graph \<open>g\<close>, a struct of \<open>g\<close>
  is marked nested if and only if some struct of \<open>g\<close> has a field whose declared type is
  that struct's name.  The statement is about every list of declarations, in whatever
  order the structs are declared: the mark is set by the second pass, on the complete
  graph.
\<close>

theorem nesting_sound_complete:
  assumes "extractStructDefs prt parsed = Inr g" and "(n, info) \<in> set g"
  shows "IsNested info \<longleftrightarrow> (\<exists>(m, r) \<in> set g. \<exists>(f, fi) \<in> set (Fields r). Type fi = n)"
proof -
  from assms(1) obtain decls where g: "g = markNested (collectStructs prt decls)"
    by (auto simp: extractStructDefs_def Let_def split: sum.splits if_splits)
  have "IsNested info \<longleftrightarrow> n \<in> set (fieldTypes g)"
    unfolding g using collectStructs_inv [where prt = prt and decls = decls] assms(2) [unfolded g]
    by (intro markNested_iff) auto
  then show ?thesis by (simp add: mem_fieldTypes)
qed

lemma extract_customerUnit:
  "extractStructDefs printName (Inr customerUnit) = Inr customerGraph"
  by (simp add: extractStructDefs_def customerUnit_def customerGraph_def customerInfo_def
      phoneInfo_def collectStructs_def collectFields_def addName_def jsonTagOf_def
      tagLiteral_def Trim_def backtick_def dquote_def Split.simps markNested_def
      markFields_def markType_def)

theorem nesting_sound_complete_witness:
  "extractStructDefs printName (Inr customerUnit) = Inr customerGraph \<and>
   (''Phone'', phoneInfo) \<in> set customerGraph \<and>
   (IsNested phoneInfo \<longleftrightarrow>
      (\<exists>(m, r) \<in> set customerGraph. \<exists>(f, fi) \<in> set (Fields r). Type fi = ''Phone''))"
proof -
  have mem: "(''Phone'', phoneInfo) \<in> set customerGraph"
    by (simp add: customerGraph_def)
  from nesting_sound_complete [OF extract_customerUnit mem] extract_customerUnit mem
  show ?thesis by blast
qed


text \<open>
  The order in which the second pass visits the structs and their fields is of no
  consequence.
\<close>

lemma marking_order_irrelevant:
  assumes "distinct (map fst g)" and "set visit = set g"
  shows "fold (\<lambda>(n, info). markFields (Fields info)) visit g = markNested g"
proof -
  have "set (fieldTypes visit) = set (fieldTypes g)"
    using assms(2) by (intro set_eqI) (simp add: mem_fieldTypes)
  then show ?thesis
    using assms(1) by (simp add: fold_markFields fold_markType markNested_setNested)
qed

section \<open>Schema validation\<close>

lemma validateNested_None:
  "validateNested i s t nested flds = None \<longleftrightarrow> nestedComplete nested flds"
proof (induction flds)
  case Nil
  show ?case by (simp add: nestedComplete_def)
next
  case (Cons p flds)
  obtain nf nfi where p: "p = (nf, nfi)" by (cases p)
  have "nestedComplete nested (p # flds) \<longleftrightarrow>
        (map_of nested (jsonTagFor nf nfi) \<noteq> None \<or> Contains (JSONTag nfi) ''omitempty'') \<and>
        nestedComplete nested flds"
    by (simp add: nestedComplete_def p)
  with Cons.IH show ?case by (simp add: p Let_def)
qed

lemma validateNested_Some:
  "validateNested i s t nested flds = Some e \<Longrightarrow> \<exists>t'. e = MissingNestedField (i + 1) s t t'"
  by (induction flds) (auto simp: Let_def split: if_splits)

lemma validateField_None:
  "validateField g i s row f fi = None \<longleftrightarrow> present row f fi \<and> nestedConforms g row f fi"
  by (auto simp: validateField_def present_def nestedConforms_def Let_def validateNested_None
      split: option.splits val.splits)



lemma validateField_kind:
  "validateField g i s row f fi = Some e \<Longrightarrow> e \<noteq> RowCountError a b \<and> e \<noteq> NilDereference"
  by (auto simp: validateField_def Let_def split: option.splits val.splits
      dest: validateNested_Some)

lemma validateFields_None:
  "validateFields g i s row flds = None \<longleftrightarrow>
   (\<forall>(f, fi) \<in> set flds. present row f fi \<and> nestedConforms g row f fi)"
  by (induction flds) (auto simp: validateField_None split: option.splits)


lemma validateFields_kind:
  "validateFields g i s row flds = Some e \<Longrightarrow> e \<noteq> RowCountError a b \<and> e \<noteq> NilDereference"
  by (induction flds) (auto split: option.splits dest: validateField_kind)


lemma validateFrom_None:
  "validateFrom g s i rows = None \<longleftrightarrow> (\<forall>row \<in> set rows. conforms g s row)"
proof (induction rows arbitrary: i)
  case Nil
  show ?case by simp
next
  case (Cons row rows)
  have "validateFields g i s row (fieldsOf g s) = None \<longleftrightarrow> conforms g s row"
    by (simp add: validateFields_None conforms_def)
  with Cons.IH [of "i + 1"] show ?case
    by (cases "validateFields g i s row (fieldsOf g s)") auto
qed

lemma validateFrom_kind:
  "validateFrom g s i rows = Some e \<Longrightarrow> e \<noteq> RowCountError a b \<and> e \<noteq> NilDereference"
  by (induction rows arbitrary: i) (auto split: option.splits dest: validateFields_kind)




lemmas sample_defs = customerGraph_def customerInfo_def phoneInfo_def goodRow_def badRow_def
  fieldsOf_def jsonTagFor_def

lemma conforms_goodRow: "conforms customerGraph ''Customer'' goodRow"
  by (simp add: conforms_def present_def nestedConforms_def nestedComplete_def sample_defs)



text \<open>Whether a row is accepted does not depend on the order of the fields.\<close>

lemma validation_order_irrelevant:
  assumes "set flds = set flds'"
  shows "validateFields g i s row flds = None \<longleftrightarrow> validateFields g i s row flds' = None"
  using assms by (simp add: validateFields_None)

section \<open>The row count\<close>

lemma validateRows_kind:
  "validateRows g s rows \<noteq> Some (RowCountError a b)"
  "validateRows g s rows \<noteq> Some NilDereference"
  using validateFrom_kind [of g s 0 rows] by (auto simp: validateRows_def)

text \<open>
  Claim C4.  Once the reply has been parsed into rows, \<open>GenerateData\<close> fails with the
  row-count error, which names the struct and the number of rows, exactly when there are
  fewer than 25 or more than 30 rows; and rows that pass the schema validation are
  returned exactly when their number is between 25 and 30.
\<close>

theorem row_count_tolerance:
  assumes "generateWithRetries env (allDefs g) name 1 w = (Inr resp, w1)"
    and "parseResponse env name resp w1 = (Inr rows, w2)"
  shows "(fst (GenerateData env name g w) = Inl (RowCountError name (length rows))
            \<longleftrightarrow> length rows < 25 \<or> 30 < length rows) \<and>
         (validateRows g name rows = None \<longrightarrow>
            (fst (GenerateData env name g w) = Inr rows
               \<longleftrightarrow> 25 \<le> length rows \<and> length rows \<le> 30))"
proof -
  have eq: "fst (GenerateData env name g w) = checkRows g name rows"
    using assms by (simp add: GenerateData_def)
  show ?thesis
    unfolding eq using validateRows_kind(1) [of g name rows]
    by (auto simp: checkRows_def split: option.splits)
qed

theorem row_count_tolerance_witness:
  "fst (generateWithRetries (sampleEnv (replicate 25 goodRow)) (allDefs customerGraph) ''Customer'' 1 startWorld)
     = Inr [[Text ''[]'']] \<and>
   fst (parseResponse (sampleEnv (replicate 25 goodRow)) ''Customer'' [[Text ''[]'']]
          (snd (generateWithRetries (sampleEnv (replicate 25 goodRow)) (allDefs customerGraph) ''Customer'' 1 startWorld)))
     = Inr (replicate 25 goodRow) \<and>
   validateRows customerGraph ''Customer'' (replicate 25 goodRow) = None \<and>
   fst (GenerateData (sampleEnv (replicate 25 goodRow)) ''Customer'' customerGraph startWorld)
     = Inr (replicate 25 goodRow)"
proof -
  let ?env = "sampleEnv (replicate 25 goodRow)"
  let ?gen = "generateWithRetries ?env (allDefs customerGraph) ''Customer'' 1 startWorld"
  let ?parse = "parseResponse ?env ''Customer'' [[Text ''[]'']] (snd ?gen)"
  have g: "fst ?gen = Inr [[Text ''[]'']]"
    by (simp add: generateWithRetries.simps sampleEnv_def apiRetries_def Let_def)
  have p: "fst ?parse = Inr (replicate 25 goodRow)"
    by (simp add: parseResponse_def sampleEnv_def Let_def)
  have v: "validateRows customerGraph ''Customer'' (replicate 25 goodRow) = None"
    by (simp add: validateRows_def validateFrom_None conforms_goodRow)
  from g have g': "?gen = (Inr [[Text ''[]'']], snd ?gen)"
    by (metis prod.collapse)
  from p have p': "?parse = (Inr (replicate 25 goodRow), snd ?parse)"
    by (metis prod.collapse)
  from row_count_tolerance [OF g' p'] v
  have "fst (GenerateData ?env ''Customer'' customerGraph startWorld) = Inr (replicate 25 goodRow)"
    by simp
  with g p v show ?thesis by blast
qed

lemma row_count_boundaries:
  "checkRows g name (replicate 24 r) = Inl (RowCountError name 24)"
  "checkRows g name (replicate 31 r) = Inl (RowCountError name 31)"
  "conforms g name r \<Longrightarrow> checkRows g name (replicate 25 r) = Inr (replicate 25 r)"
  "conforms g name r \<Longrightarrow> checkRows g name (replicate 30 r) = Inr (replicate 30 r)"
proof -
  show "checkRows g name (replicate 24 r) = Inl (RowCountError name 24)"
    and "checkRows g name (replicate 31 r) = Inl (RowCountError name 31)"
    by (simp_all add: checkRows_def)
  have "validateRows g name (replicate k r) = None" if "conforms g name r" for k
    using that by (simp add: validateRows_def validateFrom_None)
  then show "conforms g name r \<Longrightarrow> checkRows g name (replicate 25 r) = Inr (replicate 25 r)"
    and "conforms g name r \<Longrightarrow> checkRows g name (replicate 30 r) = Inr (replicate 30 r)"
    by (simp_all add: checkRows_def)
qed

section \<open>The retry loop\<close>

lemma retries_last:
  "attempt = 2 \<Longrightarrow>
   generateWithRetries env defs name attempt w =
     (case GenerateContent env defs name (calls w) of
        Inr resp \<Rightarrow> (Inr resp, w\<lparr>calls := calls w + 1, events := events w @ [CalledBackend]\<rparr>)
      | Inl err \<Rightarrow>
          (Inl (BackendError name 2 err),
           w\<lparr>calls := calls w + 1,
             events := events w @ [CalledBackend, LogAttemptFailed 2 name err]\<rparr>))"
  by (subst generateWithRetries.simps)
     (simp add: apiRetries_def emit_def Let_def split: sum.splits)

lemma retries_step:
  "attempt < 2 \<Longrightarrow>
   generateWithRetries env defs name attempt w =
     (case GenerateContent env defs name (calls w) of
        Inr resp \<Rightarrow> (Inr resp, w\<lparr>calls := calls w + 1, events := events w @ [CalledBackend]\<rparr>)
      | Inl err \<Rightarrow>
          generateWithRetries env defs name (attempt + 1)
            (w\<lparr>calls := calls w + 1,
               events := events w @ [CalledBackend, LogAttemptFailed attempt name err, Slept 1]\<rparr>))"
  by (subst generateWithRetries.simps)
     (simp add: apiRetries_def emit_def Let_def split: sum.splits)

lemma retries_unfold:
  "generateWithRetries env defs name 1 w =
     (case GenerateContent env defs name (calls w) of
        Inr resp \<Rightarrow> (Inr resp, w\<lparr>calls := calls w + 1, events := events w @ [CalledBackend]\<rparr>)
      | Inl e1 \<Rightarrow>
          (case GenerateContent env defs name (calls w + 1) of
             Inr resp \<Rightarrow>
               (Inr resp,
                w\<lparr>calls := calls w + 2,
                  events := events w @ [CalledBackend, LogAttemptFailed 1 name e1, Slept 1,
                                        CalledBackend]\<rparr>)
           | Inl e2 \<Rightarrow>
               (Inl (BackendError name 2 e2),
                w\<lparr>calls := calls w + 2,
                  events := events w @ [CalledBackend, LogAttemptFailed 1 name e1, Slept 1,
                                        CalledBackend, LogAttemptFailed 2 name e2]\<rparr>)))"
proof -
  have one: "(1::nat) < 2" and two: "(1::nat) + 1 = 2" by simp_all
  show ?thesis
    unfolding retries_step [OF one] retries_last [OF two]
    by (simp split: sum.splits)
qed

lemma parseResponse_calls:
  "calls (snd (parseResponse env name resp w)) = calls w"
  "backendCalls (snd (parseResponse env name resp w)) = backendCalls w"
  by (auto simp: parseResponse_def backendCalls_def emit_def Let_def
      split: list.splits part.splits sum.splits)

lemma GenerateData_snd:
  "snd (GenerateData env name g w) =
     (case generateWithRetries env (allDefs g) name 1 w of
        (Inl err, w1) \<Rightarrow> w1
      | (Inr resp, w1) \<Rightarrow> snd (parseResponse env name resp w1))"
  by (auto simp: GenerateData_def split: prod.splits sum.splits)

lemma retries_bound:
  "calls (snd (generateWithRetries env defs name 1 w)) \<le> calls w + 2 \<and>
   backendCalls (snd (generateWithRetries env defs name 1 w)) \<le> backendCalls w + 2"
  unfolding retries_unfold by (simp add: backendCalls_def split: sum.splits)

text \<open>
  Claim C8.  \<open>GenerateData\<close> calls the backend at most twice.  When both calls fail, it
  returns the backend error that names the struct, the two attempts and the error of the
  second call; what it has done by then is, in order: the first call, the log of its
  failure, a sleep of one second, the second call, the log of its failure.  When the
  first call fails and the second succeeds, the sleep of one second lies between the two
  calls as well.
\<close>

theorem retry_bound:
  "backendCalls (snd (GenerateData env name g w)) \<le> backendCalls w + 2 \<and>
   (GenerateContent env (allDefs g) name (calls w) = Inl e1 \<and>
    GenerateContent env (allDefs g) name (calls w + 1) = Inl e2 \<longrightarrow>
      GenerateData env name g w =
        (Inl (BackendError name 2 e2),
         w\<lparr>calls := calls w + 2,
           events := events w @ [CalledBackend, LogAttemptFailed 1 name e1, Slept 1,
                                 CalledBackend, LogAttemptFailed 2 name e2]\<rparr>)) \<and>
   (GenerateContent env (allDefs g) name (calls w) = Inl e1 \<and>
    GenerateContent env (allDefs g) name (calls w + 1) = Inr resp \<longrightarrow>
      generateWithRetries env (allDefs g) name 1 w =
        (Inr resp,
         w\<lparr>calls := calls w + 2,
           events := events w @ [CalledBackend, LogAttemptFailed 1 name e1, Slept 1,
                                 CalledBackend]\<rparr>))"
proof -
  obtain r w1 where gen: "generateWithRetries env (allDefs g) name 1 w = (r, w1)"
    by (cases "generateWithRetries env (allDefs g) name 1 w")
  with retries_bound [of env "allDefs g" name w]
  have b: "backendCalls w1 \<le> backendCalls w + 2" by simp
  have A: "backendCalls (snd (GenerateData env name g w)) \<le> backendCalls w + 2"
    using b gen by (cases r) (simp_all add: GenerateData_snd parseResponse_calls)
  have B: "GenerateData env name g w =
        (Inl (BackendError name 2 e2),
         w\<lparr>calls := calls w + 2,
           events := events w @ [CalledBackend, LogAttemptFailed 1 name e1, Slept 1,
                                 CalledBackend, LogAttemptFailed 2 name e2]\<rparr>)"
    if "GenerateContent env (allDefs g) name (calls w) = Inl e1 \<and>
        GenerateContent env (allDefs g) name (calls w + 1) = Inl e2"
    using that unfolding GenerateData_def retries_unfold by simp
  have C: "generateWithRetries env (allDefs g) name 1 w =
        (Inr resp,
         w\<lparr>calls := calls w + 2,
           events := events w @ [CalledBackend, LogAttemptFailed 1 name e1, Slept 1,
                                 CalledBackend]\<rparr>)"
    if "GenerateContent env (allDefs g) name (calls w) = Inl e1 \<and>
        GenerateContent env (allDefs g) name (calls w + 1) = Inr resp"
    using that unfolding retries_unfold by simp
  from A B C show ?thesis by blast
qed

theorem retry_bound_witness:
  "GenerateContent failingEnv (allDefs customerGraph) ''Customer'' (calls startWorld) = Inl ''timeout'' \<and>
   GenerateContent failingEnv (allDefs customerGraph) ''Customer'' (calls startWorld + 1) = Inl ''quota'' \<and>
   GenerateData failingEnv ''Customer'' customerGraph startWorld =
     (Inl (BackendError ''Customer'' 2 ''quota''),
      \<lparr>calls = 2,
       events = [CalledBackend, LogAttemptFailed 1 ''Customer'' ''timeout'', Slept 1,
                 CalledBackend, LogAttemptFailed 2 ''Customer'' ''quota'']\<rparr>)"
proof -
  have h: "GenerateContent failingEnv (allDefs customerGraph) ''Customer'' (calls startWorld) = Inl ''timeout'' \<and>
   GenerateContent failingEnv (allDefs customerGraph) ''Customer'' (calls startWorld + 1) = Inl ''quota''"
    by (simp add: failingEnv_def startWorld_def)
  with retry_bound [of failingEnv "''Customer''" customerGraph startWorld "''timeout''" "''quota''"]
  have "GenerateData failingEnv ''Customer'' customerGraph startWorld =
        (Inl (BackendError ''Customer'' 2 ''quota''),
         startWorld\<lparr>calls := calls startWorld + 2,
           events := events startWorld @ [CalledBackend, LogAttemptFailed 1 ''Customer'' ''timeout'', Slept 1,
                                 CalledBackend, LogAttemptFailed 2 ''Customer'' ''quota'']\<rparr>)"
    by blast
  with h show ?thesis by (simp add: startWorld_def)
qed

section \<open>The pipeline driver\<close>








lemma started_append: "started (xs @ ys) = started xs @ started ys"
  by (induction xs rule: started.induct) auto

lemma started_agent: "\<forall>e \<in> set evs. agentEvent e \<Longrightarrow> started evs = []"
  by (induction evs rule: started.induct) auto






text \<open>The run of the sample unit against the failing backend, in full.\<close>

lemma failing_GenerateData:
  "GenerateData failingEnv name g \<lparr>calls = 0, events = evs\<rparr> =
     (Inl (BackendError name 2 ''quota''),
      \<lparr>calls = 2,
       events = evs @ [CalledBackend, LogAttemptFailed 1 name ''timeout'', Slept 1,
                       CalledBackend, LogAttemptFailed 2 name ''quota'']\<rparr>)"
  unfolding GenerateData_def retries_unfold by (simp add: failingEnv_def)

lemma failing_run:
  "ProcessModel failingEnv printName (Inr customerUnit) ''input/customer.go'' ''output''
     startWorld =
   (Returned None,
    \<lparr>calls = 2,
     events = [LogProcessingFile ''input/customer.go'',
               LogProcessingStruct ''Customer'',
               CalledBackend, LogAttemptFailed 1 ''Customer'' ''timeout'', Slept 1,
               CalledBackend, LogAttemptFailed 2 ''Customer'' ''quota'',
               LogGenerateFailed ''Customer'' (BackendError ''Customer'' 2 ''quota''),
               LogSkippingNested ''Phone'']\<rparr>)"
  by (simp add: ProcessModel_def extract_customerUnit customerGraph_def [symmetric]
        failing_GenerateData startWorld_def emit_def)
     (simp add: customerGraph_def customerInfo_def phoneInfo_def failing_GenerateData emit_def)

section \<open>Cleaning the reply\<close>

lemma leadingSpace_Cons:
  "leadingSpace (a # s) =
     (if asciiSpace a then 1
      else case s of
             [] \<Rightarrow> 0
           | b # s' \<Rightarrow>
               if space2 a b then 2
               else case s' of [] \<Rightarrow> 0 | c # s'' \<Rightarrow> if space3 a b c then 3 else 0)"
  by (cases s; cases "tl s") auto

lemma trailingSpace_Cons:
  "trailingSpace (c # s) =
     (if asciiSpace c then 1
      else case s of
             [] \<Rightarrow> 0
           | b # s' \<Rightarrow>
               if space2 b c then 2
               else case s' of [] \<Rightarrow> 0 | a # s'' \<Rightarrow> if space3 a b c then 3 else 0)"
  by (cases s; cases "tl s") auto

lemma rune_leading:
  "w \<in> set spaceRunes \<Longrightarrow> w \<noteq> [] \<and> leadingSpace (w @ s) = length w"
  unfolding spaceRunes_def
  by (auto simp: leadingSpace_Cons asciiSpace_def space2_def space3_def)

lemma rune_trailing:
  "w \<in> set spaceRunes \<Longrightarrow> trailingSpace (rev w @ s) = length w"
  unfolding spaceRunes_def
  by (auto simp: trailingSpace_Cons asciiSpace_def space2_def space3_def)

lemma TrimLeftSpace_runes:
  "set ws \<subseteq> set spaceRunes \<Longrightarrow> TrimLeftSpace (concat ws @ t) = TrimLeftSpace t"
proof (induction ws)
  case Nil
  show ?case by simp
next
  case (Cons w ws)
  then have w: "w \<noteq> []" "leadingSpace (w @ concat ws @ t) = length w"
    using rune_leading [of w "concat ws @ t"] by auto
  have "TrimLeftSpace (w @ concat ws @ t) = TrimLeftSpace (drop (length w) (w @ concat ws @ t))"
    by (subst TrimLeftSpace.simps) (simp add: w)
  with Cons show ?case by simp
qed

lemma dropTrailingSpace_runes:
  "set ws \<subseteq> set spaceRunes \<Longrightarrow>
   dropTrailingSpace (rev (concat ws) @ u) = dropTrailingSpace u"
proof (induction ws rule: rev_induct)
  case Nil
  show ?case by simp
next
  case (snoc w ws)
  then have mem: "w \<in> set spaceRunes" by simp
  with rune_leading [of w "[]"] have w: "w \<noteq> []" by simp
  from mem have t: "trailingSpace (rev w @ rev (concat ws) @ u) = length w"
    by (rule rune_trailing)
  have "dropTrailingSpace (rev w @ rev (concat ws) @ u) =
        dropTrailingSpace (drop (length w) (rev w @ rev (concat ws) @ u))"
    by (subst dropTrailingSpace.simps) (simp add: w t)
  with snoc show ?case by simp
qed

lemma TrimLeftSpace_stop: "leadingSpace t = 0 \<Longrightarrow> TrimLeftSpace t = t"
  by (subst TrimLeftSpace.simps) simp

lemma dropTrailingSpace_stop: "trailingSpace r = 0 \<Longrightarrow> dropTrailingSpace r = r"
  by (subst dropTrailingSpace.simps) simp

lemma plain_leading: "plain c \<Longrightarrow> leadingSpace (c # s) = 0"
  unfolding plain_def backtick_def
  by (elim disjE)
     (simp_all add: leadingSpace_Cons asciiSpace_def space2_def space3_def split: list.split)

lemma plain_trailing: "plain c \<Longrightarrow> trailingSpace (c # s) = 0"
  unfolding plain_def backtick_def
  by (elim disjE)
     (simp_all add: trailingSpace_Cons asciiSpace_def space2_def space3_def split: list.split)

lemma TrimSpace_between:
  assumes "set ls \<subseteq> set spaceRunes" and "set rs \<subseteq> set spaceRunes"
    and "plain c" and "plain d"
  shows "TrimSpace (concat ls @ (c # m @ [d]) @ concat rs) = c # m @ [d]"
proof -
  have "TrimLeftSpace (concat ls @ (c # m @ [d]) @ concat rs) =
        TrimLeftSpace ((c # m @ [d]) @ concat rs)"
    using assms(1) by (rule TrimLeftSpace_runes)
  also have "\<dots> = (c # m @ [d]) @ concat rs"
    using assms(3) by (simp add: TrimLeftSpace_stop plain_leading)
  finally have left: "TrimLeftSpace (concat ls @ (c # m @ [d]) @ concat rs) =
        (c # m @ [d]) @ concat rs" .
  have "dropTrailingSpace (rev ((c # m @ [d]) @ concat rs)) =
        dropTrailingSpace (rev (concat rs) @ rev (c # m @ [d]))"
    by simp
  also have "\<dots> = dropTrailingSpace (rev (c # m @ [d]))"
    using assms(2) by (rule dropTrailingSpace_runes)
  also have "\<dots> = rev (c # m @ [d])"
    using assms(4) by (simp add: dropTrailingSpace_stop plain_trailing)
  finally have right: "dropTrailingSpace (rev ((c # m @ [d]) @ concat rs)) =
        rev (c # m @ [d])" .
  show ?thesis
    unfolding TrimSpace_def TrimRightSpace_def left right by (simp only: rev_rev_ident)
qed

lemma array_shape:
  assumes "HasPrefix arr ''[''" and "HasSuffix arr '']''"
  obtains m where "arr = CHR ''['' # m @ '']''"
proof -
  from assms(1) obtain t where t: "arr = CHR ''['' # t"
    by (auto simp: HasPrefix_def prefix_def)
  from assms(2) obtain u where u: "arr = u @ '']''"
    by (auto simp: HasSuffix_def suffix_def)
  from t u have "u \<noteq> []" by auto
  with t u obtain m where "u = CHR ''['' # m" by (cases u) auto
  with u that show thesis by simp
qed

lemma TrimSpace_array:
  assumes "HasPrefix arr ''[''" and "HasSuffix arr '']''"
    and "set ls \<subseteq> set spaceRunes" and "set rs \<subseteq> set spaceRunes"
  shows "TrimSpace (concat ls @ arr @ concat rs) = arr"
proof -
  from assms(1,2) obtain m where m: "arr = CHR ''['' # m @ '']''" by (rule array_shape)
  have "plain (CHR ''['')" "plain (CHR '']'')" by (simp_all add: plain_def)
  from TrimSpace_between [OF assms(3,4) this, of m] show ?thesis by (simp add: m)
qed


lemma sanitize_clean:
  assumes "HasPrefix arr ''[''" and "HasSuffix arr '']''"
  shows "TrimPrefix arr (fence @ p) = arr" "TrimSuffix arr (q @ fence) = arr"
proof -
  from assms obtain m where m: "arr = CHR ''['' # m @ '']''" by (rule array_shape)
  show "TrimPrefix arr (fence @ p) = arr"
    by (simp add: TrimPrefix_def HasPrefix_def m fence_def backtick_def)
  have "\<not> suffix (q @ fence) arr"
  proof
    assume "suffix (q @ fence) arr"
    then obtain z where "arr = z @ q @ fence" by (auto simp: suffix_def)
    then have "last arr = backtick" by (simp add: fence_def)
    with m show False by (simp add: backtick_def)
  qed
  then show "TrimSuffix arr (q @ fence) = arr"
    by (simp add: TrimSuffix_def HasSuffix_def)
qed

lemma sanitize_bare:
  assumes "HasPrefix arr ''[''" and "HasSuffix arr '']''"
    and "set ls \<subseteq> set spaceRunes" and "set rs \<subseteq> set spaceRunes"
  shows "sanitize (concat ls @ arr @ concat rs) = arr"
proof -
  have 1: "TrimSpace (concat ls @ arr @ concat rs) = arr"
    using assms by (rule TrimSpace_array)
  have 2: "TrimPrefix arr (fence @ ''json'' @ [newline]) = arr"
    and 3: "TrimPrefix arr (fence @ [newline]) = arr"
    and 4: "TrimSuffix arr ([newline] @ fence) = arr"
    using assms(1,2) by (rule sanitize_clean)+
  have 5: "TrimSpace arr = arr"
    using TrimSpace_array [OF assms(1,2), of "[]" "[]"] by simp
  from 2 3 4 have 6: "TrimPrefix arr ([backtick, backtick, backtick] @ ''json'' @ [newline]) = arr"
    "TrimPrefix arr ([backtick, backtick, backtick] @ [newline]) = arr"
    "TrimSuffix arr (newline # [backtick, backtick, backtick]) = arr"
    by (simp_all add: fence_def)
  show ?thesis
    unfolding sanitize_def Let_def 1 6 5 using assms(1,2) by simp
qed

lemma rune_start: "w \<in> set spaceRunes \<Longrightarrow> w \<noteq> [] \<and> hd w \<noteq> backtick"
  unfolding spaceRunes_def backtick_def by auto

lemma inner_start:
  assumes "HasPrefix arr ''[''" and "set li \<subseteq> set spaceRunes"
  shows "\<not> HasPrefix (concat li @ arr @ y) (fence @ p)"
proof (cases li)
  case Nil
  with assms(1) show ?thesis
    by (auto simp: HasPrefix_def prefix_def fence_def backtick_def)
next
  case (Cons w ws)
  with assms(2) rune_start [of w] obtain c t where "w = c # t" "c \<noteq> backtick"
    by (cases w) auto
  with Cons show ?thesis by (simp add: HasPrefix_def fence_def)
qed

lemma sanitize_fenced:
  assumes arr: "HasPrefix arr ''[''" "HasSuffix arr '']''"
    and ls: "set ls \<subseteq> set spaceRunes" and rs: "set rs \<subseteq> set spaceRunes"
    and li: "set li \<subseteq> set spaceRunes" and ri: "set ri \<subseteq> set spaceRunes"
    and opener: "opener = fence @ ''json'' @ [newline] \<or> opener = fence @ [newline]"
  shows "sanitize (concat ls @ opener @ concat li @ arr @ concat ri @ [newline] @ fence
                     @ concat rs) = arr"
proof -
  let ?X = "concat li @ arr @ concat ri"
  let ?closing = "[newline] @ fence"
  let ?block = "opener @ ?X @ ?closing"
  from opener obtain o' where o': "opener = backtick # o'"
    by (auto simp: fence_def)
  have blk: "?block = backtick # (o' @ ?X @ [newline, backtick, backtick]) @ [backtick]"
    by (simp add: o' fence_def)
  have "plain backtick" by (simp add: plain_def)
  from TrimSpace_between [OF ls rs this this, of "o' @ ?X @ [newline, backtick, backtick]"]
  have 1: "TrimSpace (concat ls @ ?block @ concat rs) = ?block"
    unfolding blk by simp
  have 23: "TrimPrefix (TrimPrefix ?block (fence @ ''json'' @ [newline])) (fence @ [newline])
             = ?X @ ?closing"
  proof -
    have no: "TrimPrefix (?X @ ?closing) (fence @ [newline]) = ?X @ ?closing"
      using inner_start [OF arr(1) li, of "concat ri @ ?closing" "[newline]"]
      by (simp add: TrimPrefix_def)
    from opener show ?thesis
    proof
      assume "opener = fence @ ''json'' @ [newline]"
      then have "TrimPrefix ?block (fence @ ''json'' @ [newline]) = ?X @ ?closing"
        by (simp add: TrimPrefix_def HasPrefix_def)
      with no show ?thesis by simp
    next
      assume op: "opener = fence @ [newline]"
      then have "TrimPrefix ?block (fence @ ''json'' @ [newline]) = ?block"
        by (simp add: TrimPrefix_def HasPrefix_def fence_def newline_def)
      moreover from op have "TrimPrefix ?block (fence @ [newline]) = ?X @ ?closing"
        by (simp add: TrimPrefix_def HasPrefix_def)
      ultimately show ?thesis by simp
    qed
  qed
  have "suffix ?closing (?X @ ?closing)"
    by (rule suffixI) simp
  then have 4: "TrimSuffix (?X @ ?closing) ?closing = ?X"
    unfolding TrimSuffix_def HasSuffix_def by simp
  have 5: "TrimSpace ?X = arr"
    using arr li ri by (rule TrimSpace_array)
  have "sanitize (concat ls @ ?block @ concat rs) = arr"
    unfolding sanitize_def Let_def 1
    using 23 4 5 arr by (simp add: fence_def)
  then show ?thesis by simp
qed

lemma sanitize_shape: "HasPrefix (sanitize s) ''['' \<and> HasSuffix (sanitize s) '']''"
proof -
  have wrapped: "HasPrefix (''['' @ t @ '']'') ''['' \<and> HasSuffix (''['' @ t @ '']'') '']''" for t
  proof -
    have "suffix '']'' (''['' @ t @ '']'')" by (rule suffixI [of _ "''['' @ t"]) simp
    then show ?thesis by (simp add: HasPrefix_def HasSuffix_def)
  qed
  obtain c5 where "sanitize s =
      (if \<not> HasPrefix c5 ''['' \<or> \<not> HasSuffix c5 '']'' then ''['' @ c5 @ '']'' else c5)"
    by (simp add: sanitize_def Let_def)
  with wrapped [of c5] show ?thesis
    by (cases "\<not> HasPrefix c5 ''['' \<or> \<not> HasSuffix c5 '']''") (simp_all del: append.simps)
qed

lemma sanitize_idem: "sanitize (sanitize s) = sanitize s"
proof -
  from sanitize_shape [of s]
  have "HasPrefix (sanitize s) ''[''" "HasSuffix (sanitize s) '']''" by simp_all
  from sanitize_bare [OF this, of "[]" "[]"] show ?thesis by simp
qed

text \<open>
  Claim C5, as stated, fails: a fence is removed only when its opening line is exactly
  three backquotes, or three backquotes and \<open>json\<close>, followed by a line feed.  Opened with
  \<open>JSON\<close> in capitals, the block keeps its opening line and is wrapped in brackets.
\<close>

theorem sanitize_fence_counterexample:
  "sanitize (fence @ ''JSON'' @ [newline] @ ''[1]'' @ [newline] @ fence)
     = ''['' @ fence @ ''JSON'' @ [newline] @ ''[1]]'' \<and>
   sanitize (fence @ ''JSON'' @ [newline] @ ''[1]'' @ [newline] @ fence) \<noteq> ''[1]''"
  by (simp add: sanitize_def TrimSpace_def TrimRightSpace_def TrimLeftSpace.simps
      dropTrailingSpace.simps TrimPrefix_def TrimSuffix_def HasPrefix_def HasSuffix_def
      asciiSpace_def space2_def space3_def fence_def backtick_def newline_def Let_def
      suffix_to_prefix)

text \<open>
  Claim C5, amended.  For an array text \<open>arr\<close>, which starts with \<open>[\<close> and ends with \<open>]\<close>:
  when the reply is \<open>arr\<close> between the opening line of three backquotes, with or without
  \<open>json\<close>, and the closing line of three backquotes, each set off by a line feed, with any
  white space around the block and around the array, sanitization yields exactly \<open>arr\<close>;
  when the reply is \<open>arr\<close> with any white space around it, sanitization yields \<open>arr\<close>
  unchanged; and sanitizing a second time changes nothing.
\<close>

theorem sanitize_fenced_array:
  assumes "HasPrefix arr ''[''" and "HasSuffix arr '']''"
    and "set ls \<subseteq> set spaceRunes" and "set rs \<subseteq> set spaceRunes"
    and "set li \<subseteq> set spaceRunes" and "set ri \<subseteq> set spaceRunes"
    and "opener = fence @ ''json'' @ [newline] \<or> opener = fence @ [newline]"
  shows "sanitize (concat ls @ opener @ concat li @ arr @ concat ri @ [newline] @ fence
                     @ concat rs) = arr \<and>
         sanitize (concat ls @ arr @ concat rs) = arr \<and>
         sanitize (sanitize s) = sanitize s"
  using sanitize_fenced [OF assms] sanitize_bare [OF assms(1,2,3,4)] sanitize_idem [of s]
  by blast

theorem sanitize_fenced_array_witness:
  "HasPrefix ''[1]'' ''['' \<and> HasSuffix ''[1]'' '']'' \<and>
   set [[CHR 0x20]] \<subseteq> set spaceRunes \<and> set [[newline]] \<subseteq> set spaceRunes \<and>
   sanitize (concat [[CHR 0x20]] @ (fence @ ''json'' @ [newline]) @ concat [] @ ''[1]''
              @ concat [] @ [newline] @ fence @ concat [[newline]]) = ''[1]'' \<and>
   sanitize (concat [[CHR 0x20]] @ ''[1]'' @ concat [[newline]]) = ''[1]''"
proof -
  have a: "HasPrefix ''[1]'' ''[''" "HasSuffix ''[1]'' '']''"
    by (simp_all add: HasPrefix_def HasSuffix_def suffix_def)
  have s: "set [[CHR 0x20]] \<subseteq> set spaceRunes" "set [[newline]] \<subseteq> set spaceRunes"
    "set ([] :: string list) \<subseteq> set spaceRunes"
    by (simp_all add: spaceRunes_def newline_def)
  have o: "fence @ ''json'' @ [newline] = fence @ ''json'' @ [newline] \<or>
           fence @ ''json'' @ [newline] = fence @ [newline]" by simp
  from sanitize_fenced_array [OF a s(1,2) s(3) s(3) o] a s(1,2)
  show ?thesis by blast
qed

section \<open>Optional nested fields\<close>

text \<open>
  Claim C3 does not hold of the code.  In the sample unit the tag of \<open>p2\<close> is
  \<open>json:"number,omitempty"\<close>.  \<open>extractStructDefs\<close> keeps its name \<open>number\<close> alone, so the
  test for \<open>omitempty\<close> in the validation does not find it, and rows whose phone lacks the
  number are rejected for the missing nested field.
\<close>

theorem omitempty_still_required:
  "extractStructDefs printName (Inr customerUnit) = Inr customerGraph \<and>
   jsonTagOf ''p2'' (Some (tagLiteral ''number,omitempty'')) = ''number'' \<and>
   \<not> Contains ''number'' ''omitempty'' \<and>
   checkRows customerGraph ''Customer'' (sparseRow # replicate 24 sparseRow) =
     Inl (MissingNestedField 1 ''Customer'' ''phone'' ''number'')"
proof -
  have "jsonTagOf ''p2'' (Some (tagLiteral ''number,omitempty'')) = ''number''"
    by (simp add: jsonTagOf_def tagLiteral_def Trim_def backtick_def dquote_def Split.simps)
  moreover have "\<not> Contains ''number'' ''omitempty''"
    by (simp add: Contains_def)
  moreover have "checkRows customerGraph ''Customer'' (sparseRow # replicate 24 sparseRow) =
     Inl (MissingNestedField 1 ''Customer'' ''phone'' ''number'')"
    by (simp add: checkRows_def validateRows_def validateField_def fieldsOf_def jsonTagFor_def
        customerGraph_def customerInfo_def phoneInfo_def sparseRow_def Contains_def)
  ultimately show ?thesis using extract_customerUnit by blast
qed

section \<open>The deterministic strategy\<close>

text \<open>
  Claim C6 does not hold of the code.  The two subfields are cut from two draws of the
  formatter: when it returns \<open>202-555-0143\<close> and \<open>415-555-0199\<close> in turn, the country code
  is the start of the first value and the number is the end of the second, and no value
  of the formatter starts with the one and ends with the other.
\<close>

theorem phone_subfields_two_draws:
  "generatePhone twoPhones (fieldsOf customerGraph ''Phone'') [] 0 =
     Inr ([(''country_code'', VString ''20''), (''number'', VString ''-555-0199'')], 2) \<and>
   PhoneFormatted twoPhones 0 = ''202-555-0143'' \<and>
   PhoneFormatted twoPhones 1 = ''415-555-0199'' \<and>
   (\<forall>n. \<not> (prefix ''20'' (PhoneFormatted twoPhones n) \<and>
            suffix ''-555-0199'' (PhoneFormatted twoPhones n)))"
  by (simp add: fieldsOf_def customerGraph_def phoneInfo_def jsonTagFor_def twoPhones_def
      sliceTo_def sliceFrom_def suffix_to_prefix)

lemma generatePhone_total:
  assumes "\<forall>n. 3 \<le> length (PhoneFormatted fk n)"
  shows "\<exists>r. generatePhone fk pf nested n = Inr r"
proof (induction pf arbitrary: nested n)
  case Nil
  show ?case by simp
next
  case (Cons p pf)
  obtain f fi where p: "p = (f, fi)" by (cases p)
  from assms have 3: "3 \<le> length (PhoneFormatted fk n)" by blast
  then have "2 \<le> length (PhoneFormatted fk n)" by arith
  note this 3
  with Cons.IH show ?case
    by (simp add: p Let_def sliceTo_def sliceFrom_def)
qed

lemma generateFields_total:
  assumes "\<forall>n. 3 \<le> length (PhoneFormatted fk n)"
  shows "\<exists>r. generateFields fk g cf row n = Inr r"
proof (induction cf arbitrary: row n)
  case Nil
  show ?case by simp
next
  case (Cons p cf)
  obtain f fi where p: "p = (f, fi)" by (cases p)
  from generatePhone_total [OF assms, of "fieldsOf g ''Phone''" "[]" n]
  obtain nested n' where "generatePhone fk (fieldsOf g ''Phone'') [] n = Inr (nested, n')"
    by auto
  with Cons.IH show ?case by (simp add: p Let_def)
qed

lemma generateRows_total:
  assumes "\<forall>n. 3 \<le> length (PhoneFormatted fk n)"
  shows "\<exists>r. generateRows fk g k n = Inr r"
proof (induction k arbitrary: n)
  case 0
  show ?case by simp
next
  case (Suc k)
  from generateFields_total [OF assms, of g "fieldsOf g ''Customer''" "[]" n]
  obtain row n' where 1: "generateFields fk g (fieldsOf g ''Customer'') [] n = Inr (row, n')"
    by auto
  from Suc.IH [of n'] obtain rows n'' where "generateRows fk g k n' = Inr (rows, n'')"
    by auto
  with 1 show ?case by simp
qed

lemma validatePhone_kind: "validatePhone i nested pf \<noteq> Some SliceOutOfRange"
  by (induction pf) (auto simp: Let_def split: if_splits)

lemma validateCustomerFields_kind:
  "validateCustomerFields g i row cf \<noteq> Some SliceOutOfRange"
  by (induction cf)
     (auto simp: validateCustomerField_def Let_def validatePhone_kind
           split: option.splits val.splits if_splits)

lemma validateCustomerFrom_kind: "validateCustomerFrom g i rows \<noteq> Some SliceOutOfRange"
  by (induction rows arbitrary: i) (auto simp: validateCustomerFields_kind split: option.splits)

lemma generateCustomer_safe:
  assumes "\<forall>n. 3 \<le> length (PhoneFormatted fk n)"
  shows "generateCustomer fk g \<noteq> Inl SliceOutOfRange"
proof -
  from generateRows_total [OF assms, of g 30 0]
  obtain rows n where "generateRows fk g 30 0 = Inr (rows, n)" by auto
  then show ?thesis
    using validateCustomerFrom_kind [of g 0 rows]
    by (auto simp: generateCustomer_def split: option.splits)
qed

text \<open>
  Claim C10.  The field \<open>p1\<close> receives the first two bytes of a formatted phone value and
  the field \<open>p2\<close> the bytes from index 3 on of a formatted phone value, unless the slice
  is out of range; the two slices of a string are both in range exactly when the string
  has at least three bytes; and when every value of the formatter has at least three
  bytes, \<open>generateCustomer\<close> does not fail out of range.
\<close>

theorem phone_slices_in_bounds:
  "generatePhone fk ((''p1'', i1) # rest) nested n =
     (if 2 \<le> length (PhoneFormatted fk n)
      then generatePhone fk rest
             (AList.update (jsonTagFor ''p1'' i1) (VString (take 2 (PhoneFormatted fk n))) nested)
             (n + 1)
      else Inl SliceOutOfRange) \<and>
   generatePhone fk ((''p2'', i2) # rest) nested n =
     (if 3 \<le> length (PhoneFormatted fk n)
      then generatePhone fk rest
             (AList.update (jsonTagFor ''p2'' i2) (VString (drop 3 (PhoneFormatted fk n))) nested)
             (n + 1)
      else Inl SliceOutOfRange) \<and>
   ((\<exists>code number. sliceTo s 2 = Inr code \<and> sliceFrom s 3 = Inr number) \<longleftrightarrow> 3 \<le> length s) \<and>
   ((\<forall>n. 3 \<le> length (PhoneFormatted fk n)) \<longrightarrow> generateCustomer fk g \<noteq> Inl SliceOutOfRange)"
proof -
  have "(\<exists>code number. sliceTo s 2 = Inr code \<and> sliceFrom s 3 = Inr number) \<longleftrightarrow> 3 \<le> length s"
    by (auto simp: sliceTo_def sliceFrom_def)
  then show ?thesis
    using generateCustomer_safe [of fk g]
    by (simp add: Let_def sliceTo_def sliceFrom_def)
qed

lemma set_update: "set (AList.update k v al) \<subseteq> insert (k, v) (set al)"
  by (induction al) auto

lemma generatePhone_keys:
  "generatePhone fk pf nested n = Inr (nested', n') \<Longrightarrow> distinct (map fst nested) \<Longrightarrow>
   distinct (map fst nested') \<and>
   fst ` set nested' \<subseteq> fst ` set nested \<union> (\<lambda>(f, fi). jsonTagFor f fi) ` set pf"
proof (induction pf arbitrary: nested n)
  case Nil
  then show ?case by simp
next
  case (Cons p pf)
  obtain f fi where p: "p = (f, fi)" by (cases p)
  let ?tag = "jsonTagFor f fi"
  show ?case
  proof (cases "f = ''p1'' \<or> f = ''p2''")
    case False
    with Cons.prems p have "generatePhone fk pf nested n = Inr (nested', n')"
      by (simp add: Let_def)
    from Cons.IH [OF this Cons.prems(2)] show ?thesis by auto
  next
    case True
    with Cons.prems(1) p obtain s where
      rec: "generatePhone fk pf (AList.update ?tag (VString s) nested) (n + 1) = Inr (nested', n')"
      by (auto simp: Let_def split: sum.splits if_splits)
    have d: "distinct (map fst (AList.update ?tag (VString s) nested))"
      using Cons.prems(2) by (rule distinct_update)
    have k: "fst ` set (AList.update ?tag (VString s) nested) = {?tag} \<union> fst ` set nested"
      by (rule dom_update)
    from Cons.IH [OF rec d] show ?thesis unfolding k using p by auto
  qed
qed

lemma objectsShaped_update:
  assumes "objectsShaped g row"
    and "\<And>nested. v = VObject nested \<Longrightarrow>
           distinct (map fst nested) \<and> fst ` set nested \<subseteq> phoneTags g"
  shows "objectsShaped g (AList.update k v row)"
  using assms set_update [of k v row] unfolding objectsShaped_def by blast

lemma generateFields_shaped:
  "generateFields fk g cf row n = Inr (row', n') \<Longrightarrow> objectsShaped g row \<Longrightarrow>
   objectsShaped g row'"
proof (induction cf arbitrary: row n)
  case Nil
  then show ?case by simp
next
  case (Cons p cf)
  obtain f fi where p: "p = (f, fi)" by (cases p)
  let ?tag = "jsonTagFor f fi"
  show ?case
  proof (cases "Type fi = ''Phone''")
    case True
    with Cons.prems(1) p obtain nested m where
      ph: "generatePhone fk (fieldsOf g ''Phone'') [] n = Inr (nested, m)" and
      rec: "generateFields fk g cf (AList.update ?tag (VObject nested) row) m = Inr (row', n')"
      by (auto simp: Let_def split: sum.splits)
    from generatePhone_keys [OF ph]
    have "distinct (map fst nested) \<and> fst ` set nested \<subseteq> phoneTags g"
      by (simp add: phoneTags_def)
    with Cons.prems(2) have "objectsShaped g (AList.update ?tag (VObject nested) row)"
      by (intro objectsShaped_update) auto
    with Cons.IH [OF rec] show ?thesis .
  next
    case False
    with Cons.prems(1) p obtain v m where
      rec: "generateFields fk g cf (AList.update ?tag v row) m = Inr (row', n') \<and>
              (\<forall>nested. v \<noteq> VObject nested)
            \<or> generateFields fk g cf row m = Inr (row', n')"
      by (auto simp: Let_def split: if_splits)
    then show ?thesis
    proof
      assume a: "generateFields fk g cf (AList.update ?tag v row) m = Inr (row', n') \<and>
              (\<forall>nested. v \<noteq> VObject nested)"
      with Cons.prems(2) have "objectsShaped g (AList.update ?tag v row)"
        by (intro objectsShaped_update) auto
      with Cons.IH a show ?thesis by blast
    next
      assume "generateFields fk g cf row m = Inr (row', n')"
      with Cons.IH Cons.prems(2) show ?thesis by blast
    qed
  qed
qed

lemma generateRows_props:
  "generateRows fk g k n = Inr (rows, n') \<Longrightarrow>
   length rows = k \<and> (\<forall>row \<in> set rows. objectsShaped g row)"
proof (induction k arbitrary: n rows)
  case 0
  then show ?case by simp
next
  case (Suc k)
  from Suc.prems obtain row m rest where
    1: "generateFields fk g (fieldsOf g ''Customer'') [] n = Inr (row, m)" and
    2: "generateRows fk g k m = Inr (rest, n')" and 3: "rows = row # rest"
    by (auto split: sum.splits)
  have "objectsShaped g []" by (simp add: objectsShaped_def)
  with generateFields_shaped [OF 1] have "objectsShaped g row" .
  with Suc.IH [OF 2] 3 show ?case by simp
qed

lemma validatePhone_None:
  "validatePhone i nested pf = None \<longleftrightarrow>
   (\<forall>(nf, nfi) \<in> set pf. map_of nested (jsonTagFor nf nfi) \<noteq> None)"
  by (induction pf) (auto simp: Let_def split: if_splits)

lemma validateCustomerField_None:
  "validateCustomerField g i row f fi = None \<longleftrightarrow>
   (\<exists>v. map_of row (jsonTagFor f fi) = Some v \<and>
        (Type fi = ''Phone'' \<longrightarrow> (\<exists>nested. v = VObject nested \<and> phoneComplete g nested)))"
  by (auto simp: validateCustomerField_def Let_def validatePhone_None phoneComplete_def
      split: option.splits val.splits)

lemma validateCustomerFields_None:
  "validateCustomerFields g i row cf = None \<longleftrightarrow>
   (\<forall>(f, fi) \<in> set cf.
      \<exists>v. map_of row (jsonTagFor f fi) = Some v \<and>
          (Type fi = ''Phone'' \<longrightarrow> (\<exists>nested. v = VObject nested \<and> phoneComplete g nested)))"
proof (induction cf)
  case Nil
  show ?case by simp
next
  case (Cons p cf)
  obtain f fi where p: "p = (f, fi)" by (cases p)
  show ?case
    using Cons.IH validateCustomerField_None [of g i row f fi]
    by (cases "validateCustomerField g i row f fi") (auto simp: p)
qed

lemma validateCustomerFrom_None:
  "validateCustomerFrom g i rows = None \<longleftrightarrow> (\<forall>row \<in> set rows. customerRow g row)"
proof (induction rows arbitrary: i)
  case Nil
  show ?case by simp
next
  case (Cons row rows)
  have "validateCustomerFields g i row (fieldsOf g ''Customer'') = None \<longleftrightarrow> customerRow g row"
    by (simp add: validateCustomerFields_None customerRow_def)
  with Cons.IH [of "i + 1"] show ?case
    by (cases "validateCustomerFields g i row (fieldsOf g ''Customer'')") auto
qed

lemma phone_two_keys:
  assumes shaped: "distinct (map fst nested)" "fst ` set nested \<subseteq> phoneTags g"
    and complete: "phoneComplete g nested"
    and two: "length (fieldsOf g ''Phone'') = 2"
    and tags: "distinct (map (\<lambda>(f, fi). jsonTagFor f fi) (fieldsOf g ''Phone''))"
  shows "length nested = 2"
proof -
  have "phoneTags g \<subseteq> fst ` set nested"
  proof
    fix t assume "t \<in> phoneTags g"
    then obtain f fi where "(f, fi) \<in> set (fieldsOf g ''Phone'')" "t = jsonTagFor f fi"
      by (auto simp: phoneTags_def)
    with complete have "map_of nested t \<noteq> None" by (auto simp: phoneComplete_def)
    then show "t \<in> fst ` set nested" by (simp add: map_of_eq_None_iff)
  qed
  with shaped(2) have "set (map fst nested) = phoneTags g" by auto
  moreover have "phoneTags g = set (map (\<lambda>(f, fi). jsonTagFor f fi) (fieldsOf g ''Phone''))"
    by (simp add: phoneTags_def)
  ultimately have "card (set (map fst nested)) =
      card (set (map (\<lambda>(f, fi). jsonTagFor f fi) (fieldsOf g ''Phone'')))" by simp
  also have "\<dots> = length (map (\<lambda>(f, fi). jsonTagFor f fi) (fieldsOf g ''Phone''))"
    using tags by (rule distinct_card)
  also have "\<dots> = 2" using two by simp
  finally have "card (set (map fst nested)) = 2" .
  moreover have "card (set (map fst nested)) = length (map fst nested)"
    using shaped(1) by (rule distinct_card)
  ultimately show ?thesis by simp
qed

lemma customerRow_conforms:
  assumes row: "customerRow g row"
    and two: "length (fieldsOf g ''Phone'') = 2"
    and scalars: "\<forall>(f, fi) \<in> set (fieldsOf g ''Customer'').
                    Type fi \<noteq> ''Phone'' \<longrightarrow> map_of g (Type fi) = None"
  shows "conforms g ''Customer'' row"
  unfolding conforms_def
proof (intro ballI, clarify)
  fix f fi assume mem: "(f, fi) \<in> set (fieldsOf g ''Customer'')"
  with row obtain v where v: "map_of row (jsonTagFor f fi) = Some v"
    "Type fi = ''Phone'' \<Longrightarrow> \<exists>nested. v = VObject nested \<and> phoneComplete g nested"
    by (auto simp: customerRow_def)
  have "nestedConforms g row f fi"
  proof (cases "map_of g (Type fi)")
    case None
    then show ?thesis by (simp add: nestedConforms_def)
  next
    case (Some ns)
    with scalars mem have ph: "Type fi = ''Phone''" by auto
    with v(2) obtain nested where n: "v = VObject nested" "phoneComplete g nested" by auto
    from Some ph have "fieldsOf g ''Phone'' = Fields ns" by (simp add: fieldsOf_def)
    with n(2) have "nestedComplete nested (Fields ns)"
      by (auto simp: nestedComplete_def phoneComplete_def)
    with Some v(1) n(1) show ?thesis by (simp add: nestedConforms_def)
  qed
  with v(1) show "present row f fi \<and> nestedConforms g row f fi"
    by (simp add: present_def)
qed

lemma steady_fields:
  "generateFields steadyFaker customerGraph (fieldsOf customerGraph ''Customer'') [] n =
     Inr (steadyRow, n + 4)"
  by (simp add: fieldsOf_def customerGraph_def customerInfo_def phoneInfo_def jsonTagFor_def
      steadyFaker_def steadyRow_def sliceTo_def sliceFrom_def)

lemma steady_rows:
  "generateRows steadyFaker customerGraph k n = Inr (replicate k steadyRow, n + 4 * k)"
  by (induction k arbitrary: n) (simp_all add: steady_fields)

lemma steady_customerRow: "customerRow customerGraph steadyRow"
  by (simp add: customerRow_def phoneComplete_def fieldsOf_def customerGraph_def
      customerInfo_def phoneInfo_def jsonTagFor_def steadyRow_def)

lemma steady_run: "generateCustomer steadyFaker customerGraph = Inr (replicate 30 steadyRow)"
proof -
  have "validateCustomerFrom customerGraph 0 (replicate 30 steadyRow) = None"
    by (simp add: validateCustomerFrom_None steady_customerRow)
  then show ?thesis by (simp add: generateCustomer_def steady_rows)
qed

theorem phone_slices_in_bounds_witness:
  "(\<forall>n. 3 \<le> length (PhoneFormatted steadyFaker n)) \<and>
   generateCustomer steadyFaker customerGraph \<noteq> Inl SliceOutOfRange \<and>
   sliceTo ''202-555-0143'' 2 = Inr ''20'' \<and> sliceFrom ''202-555-0143'' 3 = Inr ''-555-0143'' \<and>
   3 \<le> length ''202-555-0143''"
proof -
  have h: "\<forall>n. 3 \<le> length (PhoneFormatted steadyFaker n)"
    by (simp add: steadyFaker_def)
  with phone_slices_in_bounds [of steadyFaker _ _ _ _ _ "''202-555-0143''" customerGraph]
  have "generateCustomer steadyFaker customerGraph \<noteq> Inl SliceOutOfRange" by blast
  with h show ?thesis by (simp add: sliceTo_def sliceFrom_def)
qed

text \<open>
  Claim C7.  Let \<open>Phone\<close> have two fields, with different wire names, and let no field of
  \<open>Customer\<close> but those of type \<open>Phone\<close> have the name of a struct as its type.  Then every
  successful run of \<open>generateCustomer\<close> returns 30 rows; they pass its own validation and
  the schema validation of the delegated strategy; and in every row each field of type
  \<open>Phone\<close> holds an object with exactly two keys.
\<close>

theorem deterministic_rows:
  assumes run: "generateCustomer fk g = Inr rows"
    and two: "length (fieldsOf g ''Phone'') = 2"
    and tags: "distinct (map (\<lambda>(f, fi). jsonTagFor f fi) (fieldsOf g ''Phone''))"
    and scalars: "\<forall>(f, fi) \<in> set (fieldsOf g ''Customer'').
                    Type fi \<noteq> ''Phone'' \<longrightarrow> map_of g (Type fi) = None"
  shows "length rows = 30 \<and>
         validateCustomerFrom g 0 rows = None \<and>
         validateRows g ''Customer'' rows = None \<and>
         (\<forall>row \<in> set rows. \<forall>(f, fi) \<in> set (fieldsOf g ''Customer'').
            Type fi = ''Phone'' \<longrightarrow>
              (\<exists>nested. map_of row (jsonTagFor f fi) = Some (VObject nested) \<and>
                        length nested = 2 \<and> distinct (map fst nested)))"
proof -
  from run obtain n where gen: "generateRows fk g 30 0 = Inr (rows, n)"
    and val: "validateCustomerFrom g 0 rows = None"
    by (auto simp: generateCustomer_def split: sum.splits option.splits)
  from generateRows_props [OF gen]
  have len: "length rows = 30" and shaped: "\<forall>row \<in> set rows. objectsShaped g row" by auto
  from val have rowsOK: "\<forall>row \<in> set rows. customerRow g row"
    by (simp add: validateCustomerFrom_None)
  then have "\<forall>row \<in> set rows. conforms g ''Customer'' row"
    using two scalars by (auto intro: customerRow_conforms)
  then have main: "validateRows g ''Customer'' rows = None"
    by (simp add: validateRows_def validateFrom_None)
  have phone: "\<exists>nested. map_of row (jsonTagFor f fi) = Some (VObject nested) \<and>
                        length nested = 2 \<and> distinct (map fst nested)"
    if "row \<in> set rows" "(f, fi) \<in> set (fieldsOf g ''Customer'')" "Type fi = ''Phone''"
    for row f fi
  proof -
    from rowsOK that obtain nested where
      n: "map_of row (jsonTagFor f fi) = Some (VObject nested)" "phoneComplete g nested"
      by (fastforce simp: customerRow_def)
    from n(1) have "(jsonTagFor f fi, VObject nested) \<in> set row" by (rule map_of_SomeD)
    moreover from shaped that(1) have "objectsShaped g row" by blast
    ultimately
    have s: "distinct (map fst nested)" "fst ` set nested \<subseteq> phoneTags g"
      unfolding objectsShaped_def by blast+
    from phone_two_keys [OF s n(2) two tags] n(1) s(1) show ?thesis by blast
  qed
  from len val main phone show ?thesis by blast
qed

theorem deterministic_rows_witness:
  "generateCustomer steadyFaker customerGraph = Inr (replicate 30 steadyRow) \<and>
   length (fieldsOf customerGraph ''Phone'') = 2 \<and>
   distinct (map (\<lambda>(f, fi). jsonTagFor f fi) (fieldsOf customerGraph ''Phone'')) \<and>
   length (replicate 30 steadyRow) = 30 \<and>
   validateRows customerGraph ''Customer'' (replicate 30 steadyRow) = None \<and>
   (\<exists>nested. map_of steadyRow ''phone'' = Some (VObject nested) \<and> length nested = 2)"
proof -
  have two: "length (fieldsOf customerGraph ''Phone'') = 2"
    and tags: "distinct (map (\<lambda>(f, fi). jsonTagFor f fi) (fieldsOf customerGraph ''Phone''))"
    and scalars: "\<forall>(f, fi) \<in> set (fieldsOf customerGraph ''Customer'').
      Type fi \<noteq> ''Phone'' \<longrightarrow> map_of customerGraph (Type fi) = None"
    by (simp_all add: fieldsOf_def customerGraph_def customerInfo_def phoneInfo_def
        jsonTagFor_def)
  from deterministic_rows [OF steady_run two tags scalars]
  have "length (replicate 30 steadyRow) = 30"
    "validateRows customerGraph ''Customer'' (replicate 30 steadyRow) = None"
    by blast+
  moreover have "\<exists>nested. map_of steadyRow ''phone'' = Some (VObject nested) \<and> length nested = 2"
    by (simp add: steadyRow_def)
  ultimately show ?thesis using steady_run two tags by blast
qed

text \<open>
  Successful runs are the rule: when every field of \<open>Customer\<close> is of type \<open>Phone\<close> or
  has one of the four names the generator knows, the fields of \<open>Phone\<close> are \<open>p1\<close> and \<open>p2\<close>,
  the wire names of \<open>Customer\<close> differ, and the formatter returns at least three bytes,
  \<open>generateCustomer\<close> returns rows.
\<close>

lemma generatePhone_present:
  assumes "generatePhone fk pf nested n = Inr (nested', n')"
    and "\<forall>(f, fi) \<in> set pf. f = ''p1'' \<or> f = ''p2''"
  shows "(\<forall>(f, fi) \<in> set pf. map_of nested' (jsonTagFor f fi) \<noteq> None) \<and>
         (\<forall>k. map_of nested k \<noteq> None \<longrightarrow> map_of nested' k \<noteq> None)"
  using assms
proof (induction pf arbitrary: nested n)
  case Nil
  then show ?case by simp
next
  case (Cons p pf)
  obtain f fi where p: "p = (f, fi)" by (cases p)
  let ?tag = "jsonTagFor f fi"
  from Cons.prems(2) p have f: "f = ''p1'' \<or> f = ''p2''" by simp
  with Cons.prems(1) p obtain s where
    rec: "generatePhone fk pf (AList.update ?tag (VString s) nested) (n + 1) = Inr (nested', n')"
    by (auto simp: Let_def split: sum.splits if_splits)
  from Cons.prems(2) have rest: "\<forall>(f, fi) \<in> set pf. f = ''p1'' \<or> f = ''p2''" by simp
  from Cons.IH [OF rec rest]
  have 1: "\<forall>(f, fi) \<in> set pf. map_of nested' (jsonTagFor f fi) \<noteq> None"
    and 2: "\<forall>k. map_of (AList.update ?tag (VString s) nested) k \<noteq> None \<longrightarrow>
                map_of nested' k \<noteq> None" by blast+
  from 2 have "map_of nested' ?tag \<noteq> None"
    by (simp add: update_conv')
  moreover from 2 have "\<forall>k. map_of nested k \<noteq> None \<longrightarrow> map_of nested' k \<noteq> None"
    by (simp add: update_conv')
  ultimately show ?case using 1 p by simp
qed

lemma generateFields_customerRow:
  assumes "generateFields fk g cf row n = Inr (row', n')"
    and "\<forall>(f, fi) \<in> set cf. knownField f fi"
    and "\<forall>(f, fi) \<in> set (fieldsOf g ''Phone''). f = ''p1'' \<or> f = ''p2''"
    and "distinct (map (\<lambda>(f, fi). jsonTagFor f fi) cf)"
  shows "(\<forall>(f, fi) \<in> set cf.
            \<exists>v. map_of row' (jsonTagFor f fi) = Some v \<and>
                (Type fi = ''Phone'' \<longrightarrow> (\<exists>nested. v = VObject nested \<and> phoneComplete g nested))) \<and>
         (\<forall>k. k \<notin> (\<lambda>(f, fi). jsonTagFor f fi) ` set cf \<longrightarrow> map_of row' k = map_of row k)"
  using assms(1,2,4)
proof (induction cf arbitrary: row n)
  case Nil
  then show ?case by simp
next
  case (Cons p cf)
  obtain f fi where p: "p = (f, fi)" by (cases p)
  let ?tag = "jsonTagFor f fi"
  let ?tags = "(\<lambda>(f, fi). jsonTagFor f fi) ` set cf"
  from Cons.prems(3) p have fresh: "?tag \<notin> ?tags" and dist: "distinct (map (\<lambda>(f, fi). jsonTagFor f fi) cf)"
    by auto
  from Cons.prems(2) have known: "\<forall>(f, fi) \<in> set cf. knownField f fi" by simp
  have "\<exists>v m. generateFields fk g cf (AList.update ?tag v row) m = Inr (row', n') \<and>
          (Type fi = ''Phone'' \<longrightarrow> (\<exists>nested. v = VObject nested \<and> phoneComplete g nested))"
  proof (cases "Type fi = ''Phone''")
    case True
    with Cons.prems(1) p obtain nested m where
      ph: "generatePhone fk (fieldsOf g ''Phone'') [] n = Inr (nested, m)" and
      rec: "generateFields fk g cf (AList.update ?tag (VObject nested) row) m = Inr (row', n')"
      by (auto simp: Let_def split: sum.splits)
    from generatePhone_present [OF ph assms(3)] have "phoneComplete g nested"
      by (simp add: phoneComplete_def)
    with rec show ?thesis by blast
  next
    case False
    with Cons.prems(2) p have "f \<in> set [''Name'', ''Type'', ''CustomerID'', ''TaxIdNumber'']"
      by (simp add: knownField_def)
    with False Cons.prems(1) p show ?thesis
      by (auto simp: Let_def split: if_splits)
  qed
  then obtain v m where
    rec: "generateFields fk g cf (AList.update ?tag v row) m = Inr (row', n')" and
    v: "Type fi = ''Phone'' \<longrightarrow> (\<exists>nested. v = VObject nested \<and> phoneComplete g nested)"
    by blast
  from Cons.IH [OF rec known dist]
  have 1: "\<forall>(f, fi) \<in> set cf.
            \<exists>v. map_of row' (jsonTagFor f fi) = Some v \<and>
                (Type fi = ''Phone'' \<longrightarrow> (\<exists>nested. v = VObject nested \<and> phoneComplete g nested))"
    and 2: "\<forall>k. k \<notin> ?tags \<longrightarrow> map_of row' k = map_of (AList.update ?tag v row) k"
    by blast+
  from 2 fresh have "map_of row' ?tag = Some v" by (simp add: update_conv')
  moreover from 2 have "\<forall>k. k \<notin> insert ?tag ?tags \<longrightarrow> map_of row' k = map_of row k"
    by (simp add: update_conv')
  ultimately show ?case using 1 v p by simp
qed

lemma generateRows_customerRows:
  assumes "generateRows fk g k n = Inr (rows, n')"
    and "\<forall>(f, fi) \<in> set (fieldsOf g ''Customer''). knownField f fi"
    and "\<forall>(f, fi) \<in> set (fieldsOf g ''Phone''). f = ''p1'' \<or> f = ''p2''"
    and "distinct (map (\<lambda>(f, fi). jsonTagFor f fi) (fieldsOf g ''Customer''))"
  shows "\<forall>row \<in> set rows. customerRow g row"
  using assms(1)
proof (induction k arbitrary: n rows)
  case 0
  then show ?case by simp
next
  case (Suc k)
  from Suc.prems obtain row m rest where
    1: "generateFields fk g (fieldsOf g ''Customer'') [] n = Inr (row, m)" and
    2: "generateRows fk g k m = Inr (rest, n')" and 3: "rows = row # rest"
    by (auto split: sum.splits)
  from generateFields_customerRow [OF 1 assms(2,3,4)] have "customerRow g row"
    by (simp add: customerRow_def)
  with Suc.IH [OF 2] 3 show ?case by simp
qed

lemma generateCustomer_succeeds:
  assumes "\<forall>n. 3 \<le> length (PhoneFormatted fk n)"
    and "\<forall>(f, fi) \<in> set (fieldsOf g ''Customer''). knownField f fi"
    and "\<forall>(f, fi) \<in> set (fieldsOf g ''Phone''). f = ''p1'' \<or> f = ''p2''"
    and "distinct (map (\<lambda>(f, fi). jsonTagFor f fi) (fieldsOf g ''Customer''))"
  shows "\<exists>rows. generateCustomer fk g = Inr rows"
proof -
  from generateRows_total [OF assms(1), of g 30 0]
  obtain rows n where gen: "generateRows fk g 30 0 = Inr (rows, n)" by auto
  from generateRows_customerRows [OF gen assms(2,3,4)]
  have "validateCustomerFrom g 0 rows = None"
    by (simp add: validateCustomerFrom_None)
  with gen show ?thesis by (simp add: generateCustomer_def)
qed

end
